theory Spec2Isabelle
  imports Main "HOL-Library.Word"
begin

unbundle bit_operations_syntax

section \<open>Buffers and the SHA-256 digest of Node's crypto module\<close>

text \<open>
  A Node \<^verbatim>\<open>Buffer\<close> is a list of bytes. \<^verbatim>\<open>sha256_hasher.ts\<close> computes every digest
  with \<^verbatim>\<open>createHash('sha256')\<close>; the function below is SHA-256 as FIPS 180-4 defines it
  (padding, message schedule, 64 rounds per 512-bit block, big-endian output). The round
  constants and the initial hash value are written in decimal.
\<close>

type_synonym byte = "8 word"
type_synonym bytes = "byte list"
type_synonym w32 = "32 word"

definition Ch :: "w32 \<Rightarrow> w32 \<Rightarrow> w32 \<Rightarrow> w32" where
  "Ch x y z = (x AND y) XOR (NOT x AND z)"

definition Maj :: "w32 \<Rightarrow> w32 \<Rightarrow> w32 \<Rightarrow> w32" where
  "Maj x y z = (x AND y) XOR (x AND z) XOR (y AND z)"

definition bsig0 :: "w32 \<Rightarrow> w32" where
  "bsig0 x = word_rotr 2 x XOR word_rotr 13 x XOR word_rotr 22 x"

definition bsig1 :: "w32 \<Rightarrow> w32" where
  "bsig1 x = word_rotr 6 x XOR word_rotr 11 x XOR word_rotr 25 x"

definition ssig0 :: "w32 \<Rightarrow> w32" where
  "ssig0 x = word_rotr 7 x XOR word_rotr 18 x XOR drop_bit 3 x"

definition ssig1 :: "w32 \<Rightarrow> w32" where
  "ssig1 x = word_rotr 17 x XOR word_rotr 19 x XOR drop_bit 10 x"

definition K256 :: "w32 list" where
  "K256 =
    [1116352408, 1899447441, 3049323471, 3921009573, 961987163, 1508970993,
     2453635748, 2870763221, 3624381080, 310598401, 607225278, 1426881987,
     1925078388, 2162078206, 2614888103, 3248222580, 3835390401, 4022224774,
     264347078, 604807628, 770255983, 1249150122, 1555081692, 1996064986,
     2554220882, 2821834349, 2952996808, 3210313671, 3336571891, 3584528711,
     113926993, 338241895, 666307205, 773529912, 1294757372, 1396182291,
     1695183700, 1986661051, 2177026350, 2456956037, 2730485921, 2820302411,
     3259730800, 3345764771, 3516065817, 3600352804, 4094571909, 275423344,
     430227734, 506948616, 659060556, 883997877, 958139571, 1322822218,
     1537002063, 1747873779, 1955562222, 2024104815, 2227730452, 2361852424,
     2428436474, 2756734187, 3204031479, 3329325298]"

definition H256 :: "w32 list" where
  "H256 =
    [1779033703, 3144134277, 1013904242, 2773480762,
     1359893119, 2600822924, 528734635, 1541459225]"

definition be32 :: "bytes \<Rightarrow> w32" where
  "be32 bs = foldl (\<lambda>acc b. push_bit 8 acc OR ucast b) 0 bs"

definition w32_bytes :: "w32 \<Rightarrow> bytes" where
  "w32_bytes w = [ucast (drop_bit 24 w), ucast (drop_bit 16 w), ucast (drop_bit 8 w), ucast w]"

fun words_of :: "bytes \<Rightarrow> w32 list" where
  "words_of (a # b # c # d # r) = be32 [a, b, c, d] # words_of r"
| "words_of _ = []"

definition sha_pad :: "bytes \<Rightarrow> bytes" where
  "sha_pad m =
     (let n = length m; k = (119 - n mod 64) mod 64; l = (of_nat (8 * n) :: 64 word)
      in m @ [0x80] @ replicate k 0 @ map (\<lambda>i. ucast (drop_bit (8 * (7 - i)) l)) [0..<8])"

text \<open>The message schedule is grown at the front: the newest word is the head.\<close>

fun extend :: "nat \<Rightarrow> w32 list \<Rightarrow> w32 list" where
  "extend 0 ws = ws"
| "extend (Suc n) ws =
     extend n ((ssig1 (ws ! 1) + ws ! 6 + ssig0 (ws ! 14) + ws ! 15) # ws)"

fun rounds :: "w32 list \<Rightarrow> w32 list \<Rightarrow> w32 list \<Rightarrow> w32 list" where
  "rounds (k # ks) (w # ws) [a, b, c, d, e, f, g, h] =
     (let t1 = h + bsig1 e + Ch e f g + k + w; t2 = bsig0 a + Maj a b c
      in rounds ks ws [t1 + t2, a, b, c, d + t1, e, f, g])"
| "rounds _ _ st = st"

definition sha_block :: "w32 list \<Rightarrow> w32 list \<Rightarrow> w32 list" where
  "sha_block st ws = map2 (+) st (rounds K256 (rev (extend 48 (rev ws))) st)"

fun chunks :: "nat \<Rightarrow> w32 list \<Rightarrow> w32 list list" where
  "chunks 0 ws = []"
| "chunks (Suc n) ws = take 16 ws # chunks n (drop 16 ws)"

definition sha256 :: "bytes \<Rightarrow> bytes" where
  "sha256 m =
     (let ws = words_of (sha_pad m)
      in concat (map w32_bytes (foldl sha_block H256 (chunks (length ws div 16) ws))))"

section \<open>sha256\_hasher.ts\<close>

text \<open>
  \<^verbatim>\<open>hash(data)\<close> and \<^verbatim>\<open>compress(lhs, rhs)\<close>; \<^verbatim>\<open>Buffer.concat\<close> is list append.
\<close>

definition hash :: "bytes \<Rightarrow> bytes" where
  "hash data = sha256 data"

definition compress :: "bytes \<Rightarrow> bytes \<Rightarrow> bytes" where
  "compress lhs rhs = sha256 (lhs @ rhs)"

text \<open>
  The hasher's only state is \<^verbatim>\<open>emptyHashCache\<close>, which the constructor initialises with
  one entry, \<^verbatim>\<open>hash(Buffer.alloc(64, 0))\<close>.
\<close>

type_synonym hasher = "bytes list"

definition Sha256Hasher :: hasher where
  "Sha256Hasher = [hash (replicate 64 0)]"

text \<open>
  \<^verbatim>\<open>while (depth >= this.emptyHashCache.length - 1)\<close> pushes the compression of the last
  entry with itself. The comparison is on JavaScript numbers, so the subtraction is done
  on \<open>int\<close>. The cache is never empty (the constructor pushes, nothing pops), which is
  what makes \<open>last\<close> the entry \<^verbatim>\<open>emptyHashCache[length - 1]\<close>.
\<close>

function emptyHash_loop :: "nat \<Rightarrow> hasher \<Rightarrow> hasher" where
  "emptyHash_loop d cache =
     (if int d \<ge> int (length cache) - 1
      then emptyHash_loop d (cache @ [compress (last cache) (last cache)])
      else cache)"
  by pat_completeness auto
termination
  by (relation "measure (\<lambda>(d, cache). d + 2 - length cache)") auto

declare emptyHash_loop.simps [simp del]

text \<open>\<^verbatim>\<open>emptyHash(depth)\<close> returns \<^verbatim>\<open>emptyHashCache[depth]\<close> and leaves the grown cache behind.\<close>

definition emptyHash :: "hasher \<Rightarrow> nat \<Rightarrow> bytes \<times> hasher" where
  "emptyHash cache d = (let cache' = emptyHash_loop d cache in (cache' ! d, cache'))"

text \<open>
  The empty-subtree hashes as the specification words them:
  \<open>emptyHash(0) = hash(64 zero bytes)\<close>, \<open>emptyHash(d) = compress(emptyHash(d-1), emptyHash(d-1))\<close>.
\<close>

fun emptyHash_spec :: "nat \<Rightarrow> bytes" where
  "emptyHash_spec 0 = hash (replicate 64 0)"
| "emptyHash_spec (Suc d) = compress (emptyHash_spec d) (emptyHash_spec d)"

text \<open>A cache is sound when it is a non-empty prefix of the table of empty-subtree hashes.\<close>

definition cache_ok :: "hasher \<Rightarrow> bool" where
  "cache_ok cache = (cache = map emptyHash_spec [0..<length cache] \<and> cache \<noteq> [])"

section \<open>JavaScript numbers, Buffer accessors and string conversion\<close>

text \<open>
  Depths and indices are JavaScript numbers holding integers: \<open>int\<close>. The bitwise
  operators \<^verbatim>\<open>^\<close>, \<^verbatim>\<open>&\<close> and \<^verbatim>\<open>>>\<close> first convert their operands to signed 32-bit integers
  (ToInt32) and return a signed 32-bit result; \<^verbatim>\<open>>>\<close> shifts arithmetically by the count
  modulo 32.
\<close>

definition js_xor :: "int \<Rightarrow> int \<Rightarrow> int" where
  "js_xor a b = sint ((word_of_int a :: 32 word) XOR word_of_int b)"

definition js_and :: "int \<Rightarrow> int \<Rightarrow> int" where
  "js_and a b = sint ((word_of_int a :: 32 word) AND word_of_int b)"

definition js_shr :: "int \<Rightarrow> nat \<Rightarrow> int" where
  "js_shr a n = sint (signed_drop_bit (n mod 32) (word_of_int a :: 32 word))"

datatype error =
    BadDepth        \<comment> \<open>\<^verbatim>\<open>Error('Bad depth')\<close>\<close>
  | BadLeafValue    \<comment> \<open>\<^verbatim>\<open>Error('Bad leaf value')\<close>\<close>
  | RangeError      \<comment> \<open>a Buffer accessor given a value or an offset out of range\<close>
  | StoreFailure    \<comment> \<open>a \<^verbatim>\<open>put\<close> the store rejects\<close>

definition le32 :: "int \<Rightarrow> bytes" where
  "le32 v = [word_of_int v, word_of_int (v div 256), word_of_int (v div 65536),
             word_of_int (v div 16777216)]"

text \<open>
  \<^verbatim>\<open>buf.writeUInt32LE(value, offset)\<close> throws unless \<open>0 \<le> value \<le> 2\<^sup>3\<^sup>2 - 1\<close> and the four bytes
  fit; \<^verbatim>\<open>buf.readUInt32LE(offset)\<close> throws unless the four bytes are there.
\<close>

definition writeUInt32LE :: "bytes \<Rightarrow> int \<Rightarrow> nat \<Rightarrow> error + bytes" where
  "writeUInt32LE buf v off =
     (if 0 \<le> v \<and> v \<le> 4294967295 \<and> off + 4 \<le> length buf
      then Inr (take off buf @ le32 v @ drop (off + 4) buf)
      else Inl RangeError)"

definition readUInt32LE :: "bytes \<Rightarrow> nat \<Rightarrow> error + int" where
  "readUInt32LE buf off =
     (if off + 4 \<le> length buf
      then Inr (uint (buf ! off) + 256 * uint (buf ! (off + 1))
                + 65536 * uint (buf ! (off + 2)) + 16777216 * uint (buf ! (off + 3)))
      else Inl RangeError)"

text \<open>\<^verbatim>\<open>src.copy(dst)\<close> overwrites the front of \<open>dst\<close> with as much of \<open>src\<close> as fits.\<close>

definition Buffer_copy :: "bytes \<Rightarrow> bytes \<Rightarrow> bytes" where
  "Buffer_copy src dst = take (length dst) src @ drop (length src) dst"

text \<open>
  A JavaScript string is represented by its UTF-8 encoding, one \<open>char\<close> per byte: the bytes
  that \<^verbatim>\<open>Buffer.from(name)\<close> produces and that the store compares for a string key, so
  \<open>Buffer_from\<close> reads the bytes off. A string stands for its encoding only: JavaScript strings
  that differ in lone surrogates have the same encoding (Node writes EF BF BD for each), are
  one value here, and nothing below depends on telling two names apart by anything but their
  encodings. \<^verbatim>\<open>buf.toString()\<close> decodes UTF-8 and replaces every maximal ill-formed
  subsequence by U+FFFD (bytes EF BF BD in this representation).
\<close>

definition Buffer_from :: "string \<Rightarrow> bytes" where
  "Buffer_from s = map (\<lambda>c. of_nat (of_char c)) s"

definition FFFD :: bytes where
  "FFFD = [0xEF, 0xBF, 0xBD]"

definition within :: "byte \<Rightarrow> byte \<Rightarrow> byte \<Rightarrow> bool" where
  "within lo hi b = (lo \<le> b \<and> b \<le> hi)"

fun utf8_scrub :: "bytes \<Rightarrow> bytes" where
  "utf8_scrub [] = []"
| "utf8_scrub (b # bs) =
     (if b \<le> 0x7F then b # utf8_scrub bs
      else if within 0xC2 0xDF b then
        (case bs of
           [] \<Rightarrow> FFFD
         | c # r \<Rightarrow>
             if within 0x80 0xBF c then b # c # utf8_scrub r else FFFD @ utf8_scrub bs)
      else if within 0xE0 0xEF b then
        (case bs of
           [] \<Rightarrow> FFFD
         | c # r \<Rightarrow>
             if \<not> within (if b = 0xE0 then 0xA0 else 0x80) (if b = 0xED then 0x9F else 0xBF) c
             then FFFD @ utf8_scrub bs
             else (case r of
                     [] \<Rightarrow> FFFD
                   | d # r' \<Rightarrow>
                       if within 0x80 0xBF d then b # c # d # utf8_scrub r'
                       else FFFD @ utf8_scrub r))
      else if within 0xF0 0xF4 b then
        (case bs of
           [] \<Rightarrow> FFFD
         | c # r \<Rightarrow>
             if \<not> within (if b = 0xF0 then 0x90 else 0x80) (if b = 0xF4 then 0x8F else 0xBF) c
             then FFFD @ utf8_scrub bs
             else (case r of
                     [] \<Rightarrow> FFFD
                   | d # r' \<Rightarrow>
                       if \<not> within 0x80 0xBF d then FFFD @ utf8_scrub r
                       else (case r' of
                               [] \<Rightarrow> FFFD
                             | e # r'' \<Rightarrow>
                                 if within 0x80 0xBF e then b # c # d # e # utf8_scrub r''
                                 else FFFD @ utf8_scrub r')))
      else FFFD @ utf8_scrub bs)"

definition toString :: "bytes \<Rightarrow> string" where
  "toString buf = map (\<lambda>b. char_of (unat b)) (utf8_scrub buf)"

section \<open>The key-value store\<close>

text \<open>
  The store is the external LevelUp handle. A \<^verbatim>\<open>get\<close> finds a value, reports the key as
  not found, or fails otherwise; a \<^verbatim>\<open>put\<close> is accepted or rejected. The store's state is
  what each key would fetch, which keys it refuses to write, and the accesses made so far.
  A key is a string; a Buffer key addresses the record of the string with the same bytes.
\<close>

datatype fetched = Found bytes | NotFound | Failure

datatype access = Get string | Put string bytes

record store =
  cells :: "string \<Rightarrow> fetched"
  refuses :: "string \<Rightarrow> bool"
  trace :: "access list"

definition db_get :: "store \<Rightarrow> string \<Rightarrow> fetched \<times> store" where
  "db_get db k = (cells db k, db\<lparr>trace := trace db @ [Get k]\<rparr>)"

definition db_put :: "store \<Rightarrow> string \<Rightarrow> bytes \<Rightarrow> (error + unit) \<times> store" where
  "db_put db k v =
     (if refuses db k then (Inl StoreFailure, db\<lparr>trace := trace db @ [Put k v]\<rparr>)
      else (Inr (), db\<lparr>cells := (cells db)(k := Found v), trace := trace db @ [Put k v]\<rparr>))"

section \<open>merkle\_tree.ts\<close>

definition MAX_DEPTH :: int where
  "MAX_DEPTH = 32"

definition LEAF_BYTES :: nat where
  "LEAF_BYTES = 64"

record tree =
  name :: string
  depth :: int
  root :: bytes
  hasher :: hasher

text \<open>
  The constructor. A Buffer is truthy whatever it holds, so \<^verbatim>\<open>if (root)\<close> asks whether the
  argument was passed.
\<close>

definition MerkleTree :: "string \<Rightarrow> int \<Rightarrow> bytes option \<Rightarrow> error + tree" where
  "MerkleTree nm d rt =
     (if \<not> (d \<ge> 1 \<and> d \<le> MAX_DEPTH) then Inl BadDepth
      else case rt of
             Some r \<Rightarrow> Inr \<lparr>name = nm, depth = d, root = r, hasher = Sha256Hasher\<rparr>
           | None \<Rightarrow>
               (let (e, h) = emptyHash Sha256Hasher (nat d)
                in Inr \<lparr>name = nm, depth = d, root = e, hasher = h\<rparr>))"

definition writeMetaData :: "tree \<Rightarrow> store \<Rightarrow> (error + unit) \<times> store" where
  "writeMetaData t db =
     (case writeUInt32LE (Buffer_copy (root t) (replicate 40 0)) (depth t) 32 of
        Inl e \<Rightarrow> (Inl e, db)
      | Inr data \<Rightarrow> db_put db (name t) data)"

text \<open>
  \<^verbatim>\<open>MerkleTree.new\<close>: the metadata is fetched first, any failure of the fetch giving
  \<^verbatim>\<open>undefined\<close>; a fetched Buffer is truthy.
\<close>

definition new :: "store \<Rightarrow> string \<Rightarrow> int \<Rightarrow> (error + tree) \<times> store" where
  "new db nm d =
     (case db_get db nm of
        (Found meta, db1) \<Rightarrow>
          (let rt = take 32 meta in
           case readUInt32LE meta 32 of
             Inl e \<Rightarrow> (Inl e, db1)
           | Inr pd \<Rightarrow> (MerkleTree nm pd (Some rt), db1))
      | (_, db1) \<Rightarrow>
          (case MerkleTree nm d None of
             Inl e \<Rightarrow> (Inl e, db1)
           | Inr t \<Rightarrow>
               (case writeMetaData t db1 of
                  (Inl e, db2) \<Rightarrow> (Inl e, db2)
                | (Inr _, db2) \<Rightarrow> (Inr t, db2))))"

definition getRoot :: "tree \<Rightarrow> bytes" where
  "getRoot t = root t"

definition generateKey :: "tree \<Rightarrow> int \<Rightarrow> int \<Rightarrow> error + bytes" where
  "generateKey t lvl idx =
     (case writeUInt32LE (replicate 8 0) lvl 0 of
        Inl e \<Rightarrow> Inl e
      | Inr b1 \<Rightarrow>
          (case writeUInt32LE b1 idx 4 of
             Inl e \<Rightarrow> Inl e
           | Inr b2 \<Rightarrow> Inr (hash (Buffer_from (name t) @ b2))))"

text \<open>
  \<^verbatim>\<open>readNode\<close>: the key is derived outside the \<^verbatim>\<open>try\<close>, so its error propagates; every
  failure of the fetch is caught and answered with \<^verbatim>\<open>emptyHash(depth)\<close>, which may grow
  the hasher's cache. Once the key has been derived the level is not negative, so \<open>nat\<close>
  loses nothing; the same holds for the depth the constructor has checked.
\<close>

definition readNode :: "int \<Rightarrow> int \<Rightarrow> tree \<Rightarrow> store \<Rightarrow> (error + bytes) \<times> tree \<times> store" where
  "readNode lvl idx t db =
     (case generateKey t lvl idx of
        Inl e \<Rightarrow> (Inl e, t, db)
      | Inr key \<Rightarrow>
          (case db_get db (toString key) of
             (Found nodeHash, db1) \<Rightarrow> (Inr nodeHash, t, db1)
           | (_, db1) \<Rightarrow>
               (let (e, h) = emptyHash (hasher t) (nat lvl)
                in (Inr e, t\<lparr>hasher := h\<rparr>, db1))))"

text \<open>\<^verbatim>\<open>writeNode\<close>; no caller passes a batch, so the put goes to the store.\<close>

definition writeNode :: "int \<Rightarrow> int \<Rightarrow> bytes \<Rightarrow> tree \<Rightarrow> store \<Rightarrow> (error + unit) \<times> store" where
  "writeNode lvl idx v t db =
     (if length v > LEAF_BYTES then (Inl BadLeafValue, db)
      else case generateKey t lvl idx of
             Inl e \<Rightarrow> (Inl e, db)
           | Inr key \<Rightarrow> db_put db (toString key) v)"

text \<open>
  Modelled from the spec: the class \<^verbatim>\<open>HashPath\<close> of \<^verbatim>\<open>hash_path.ts\<close>, which is not among the
  sources; the specification describes it as the ordered sequence of sibling pairs, one
  per level from the leaf upwards, that \<^verbatim>\<open>getHashPath\<close> hands to its constructor.
\<close>

type_synonym HashPath = "(bytes \<times> bytes) list"

text \<open>
  \<^verbatim>\<open>getHashPath\<close>: the loop counter \<open>d\<close> is the source's local \<^verbatim>\<open>depth\<close>; an error of
  \<^verbatim>\<open>readNode\<close> rejects the call.
\<close>

function getHashPath_loop ::
  "tree \<Rightarrow> store \<Rightarrow> int \<Rightarrow> int \<Rightarrow> HashPath \<Rightarrow> (error + HashPath) \<times> tree \<times> store" where
  "getHashPath_loop t db d idx pathData =
     (if d < depth t then
        (let siblingIndex = js_xor idx 1 in
         case readNode d siblingIndex t db of
           (Inl e, t1, db1) \<Rightarrow> (Inl e, t1, db1)
         | (Inr siblingHash, t1, db1) \<Rightarrow>
             (case readNode d idx t1 db1 of
                (Inl e, t2, db2) \<Rightarrow> (Inl e, t2, db2)
              | (Inr nodeHash, t2, db2) \<Rightarrow>
                  getHashPath_loop t2 db2 (d + 1) (js_shr idx 1)
                    (pathData @ [if js_and idx 1 = 0 then (nodeHash, siblingHash)
                                 else (siblingHash, nodeHash)])))
      else (Inr pathData, t, db))"
  by pat_completeness auto
termination
  apply (relation "measure (\<lambda>(t, db, d, idx, pathData). nat (depth t - d))")
   apply simp
  subgoal for t db d idx pathData x xa y b xb ya xc yb ba xd yc
    by (auto simp: readNode_def split: sum.splits prod.splits fetched.splits)
  done

declare getHashPath_loop.simps [simp del]

definition getHashPath ::
  "int \<Rightarrow> tree \<Rightarrow> store \<Rightarrow> (error + HashPath) \<times> tree \<times> store" where
  "getHashPath idx t db = getHashPath_loop t db 0 idx []"

text \<open>
  \<^verbatim>\<open>updateElement\<close>: the leaf's hash is written, then the loop climbs from level 1 to
  \<^verbatim>\<open>this.depth\<close>; the root field is assigned before the metadata is written.
\<close>

function updateElement_loop ::
  "tree \<Rightarrow> store \<Rightarrow> int \<Rightarrow> int \<Rightarrow> bytes \<Rightarrow> (error + bytes) \<times> tree \<times> store" where
  "updateElement_loop t db d idx hashValue =
     (if d \<le> depth t then
        (let siblingIndex = js_xor idx 1 in
         case readNode (d - 1) siblingIndex t db of
           (Inl e, t1, db1) \<Rightarrow> (Inl e, t1, db1)
         | (Inr siblingHash, t1, db1) \<Rightarrow>
             (let hashValue' = (if js_and idx 1 = 0 then compress hashValue siblingHash
                                else compress siblingHash hashValue)
              in case writeNode d (js_shr idx 1) hashValue' t1 db1 of
                   (Inl e, db2) \<Rightarrow> (Inl e, t1, db2)
                 | (Inr _, db2) \<Rightarrow>
                     updateElement_loop t1 db2 (d + 1) (js_shr idx 1) hashValue'))
      else (Inr hashValue, t, db))"
  by pat_completeness auto
termination
  apply (relation "measure (\<lambda>(t, db, d, idx, hashValue). nat (depth t + 1 - d))")
   apply simp
  subgoal for t db d idx hashValue x xa y b xb ya
    by (auto simp: readNode_def split: sum.splits prod.splits fetched.splits)
  done

declare updateElement_loop.simps [simp del]

definition updateElement ::
  "int \<Rightarrow> bytes \<Rightarrow> tree \<Rightarrow> store \<Rightarrow> (error + bytes) \<times> tree \<times> store" where
  "updateElement idx v t db =
     (let hashValue = hash v in
      case writeNode 0 idx hashValue t db of
        (Inl e, db1) \<Rightarrow> (Inl e, t, db1)
      | (Inr _, db1) \<Rightarrow>
          (case updateElement_loop t db1 1 idx hashValue of
             (Inl e, t1, db2) \<Rightarrow> (Inl e, t1, db2)
           | (Inr hv, t1, db2) \<Rightarrow>
               (let t2 = t1\<lparr>root := hv\<rparr> in
                case writeMetaData t2 db2 of
                  (Inl e, db3) \<Rightarrow> (Inl e, t2, db3)
                | (Inr _, db3) \<Rightarrow> (Inr (root t2), t2, db3))))"

section \<open>Specification-level views of the store and the tree\<close>

text \<open>
  The values \<^verbatim>\<open>writeUInt32LE\<close> accepts.
\<close>

definition u32 :: "int \<Rightarrow> bool" where
  "u32 x = (0 \<le> x \<and> x \<le> 4294967295)"

text \<open>
  The key under which \<open>readNode\<close> and \<open>writeNode\<close> address the node \<open>(lvl, idx)\<close> of the
  tree \<open>nm\<close>: \<^verbatim>\<open>generateKey(lvl, idx).toString()\<close>. The value of a node in given cells is what
  is found there, or the empty-subtree hash of its level.
\<close>

definition nodeKey :: "string \<Rightarrow> int \<Rightarrow> int \<Rightarrow> string" where
  "nodeKey nm lvl idx = toString (hash (Buffer_from nm @ le32 lvl @ le32 idx))"

definition node_value :: "string \<Rightarrow> (string \<Rightarrow> fetched) \<Rightarrow> int \<Rightarrow> int \<Rightarrow> bytes" where
  "node_value nm cs lvl idx =
     (case cs (nodeKey nm lvl idx) of Found v \<Rightarrow> v | _ \<Rightarrow> emptyHash_spec (nat lvl))"

text \<open>
  \<open>reads_only db db'\<close>: from \<open>db\<close> to \<open>db'\<close> the store was only read: same cells, same
  refusals, and the trace has grown by \<open>Get\<close>s. \<open>same_tree\<close>: the fields other than the
  hasher's cache are the same.
\<close>

fun is_Get :: "access \<Rightarrow> bool" where
  "is_Get (Get k) = True"
| "is_Get (Put k v) = False"

definition reads_only :: "store \<Rightarrow> store \<Rightarrow> bool" where
  "reads_only db db' =
     (cells db' = cells db \<and> refuses db' = refuses db
      \<and> take (length (trace db)) (trace db') = trace db
      \<and> list_all is_Get (drop (length (trace db)) (trace db')))"

definition same_tree :: "tree \<Rightarrow> tree \<Rightarrow> bool" where
  "same_tree t t' = (name t' = name t \<and> depth t' = depth t \<and> root t' = root t)"

text \<open>
  The path the specification describes, from level \<open>d\<close> and index \<open>idx\<close> upwards over
  \<open>n\<close> levels: at each level the pair (left child, right child) around the index.
\<close>

fun path_spec :: "string \<Rightarrow> (string \<Rightarrow> fetched) \<Rightarrow> int \<Rightarrow> int \<Rightarrow> nat \<Rightarrow> HashPath" where
  "path_spec nm cs d idx 0 = []"
| "path_spec nm cs d idx (Suc n) =
     (if even idx then (node_value nm cs d idx, node_value nm cs d (idx + 1))
      else (node_value nm cs d (idx - 1), node_value nm cs d idx))
     # path_spec nm cs (d + 1) (idx div 2) n"

text \<open>
  What the loop of \<open>updateElement\<close> does to the cells, from level \<open>d\<close> over \<open>n\<close> levels,
  with the arithmetic sibling, parity and half; \<open>rf\<close> tells which keys the store
  refuses. \<open>update_spec\<close> is the whole call: the result, the new root field and the new
  cells. \<open>meta_bytes\<close> is the record \<open>writeMetaData\<close> builds.
\<close>

fun climb ::
  "string \<Rightarrow> (string \<Rightarrow> bool) \<Rightarrow> (string \<Rightarrow> fetched) \<Rightarrow> int \<Rightarrow> int \<Rightarrow> bytes \<Rightarrow> nat
     \<Rightarrow> (error + bytes) \<times> (string \<Rightarrow> fetched)" where
  "climb nm rf cs d idx hv 0 = (Inr hv, cs)"
| "climb nm rf cs d idx hv (Suc n) =
     (let sv = node_value nm cs (d - 1) (if even idx then idx + 1 else idx - 1);
          hv' = (if even idx then compress hv sv else compress sv hv);
          k = nodeKey nm d (idx div 2)
      in if rf k then (Inl StoreFailure, cs)
         else climb nm rf (cs(k := Found hv')) (d + 1) (idx div 2) hv' n)"

definition meta_bytes :: "bytes \<Rightarrow> int \<Rightarrow> bytes" where
  "meta_bytes r D =
     (let data = Buffer_copy r (replicate 40 0) in take 32 data @ le32 D @ drop 36 data)"

definition update_spec ::
  "string \<Rightarrow> int \<Rightarrow> bytes \<Rightarrow> (string \<Rightarrow> bool) \<Rightarrow> (string \<Rightarrow> fetched) \<Rightarrow> int \<Rightarrow> bytes
     \<Rightarrow> (error + bytes) \<times> bytes \<times> (string \<Rightarrow> fetched)" where
  "update_spec nm D rt rf cs idx v =
     (if rf (nodeKey nm 0 idx) then (Inl StoreFailure, rt, cs)
      else case climb nm rf (cs(nodeKey nm 0 idx := Found (hash v))) 1 idx (hash v) (nat D) of
             (Inl e, cs1) \<Rightarrow> (Inl e, rt, cs1)
           | (Inr h, cs1) \<Rightarrow>
               if rf nm then (Inl StoreFailure, h, cs1)
               else (Inr h, h, cs1(nm := Found (meta_bytes h D))))"

text \<open>
  Stores used as examples: an empty store that accepts every put, and one that holds a
  metadata record of depth 1 with a zero root under the name \<open>t\<close>.
\<close>

definition fresh_store :: store where
  "fresh_store = \<lparr>cells = (\<lambda>k. NotFound), refuses = (\<lambda>k. False), trace = []\<rparr>"


text \<open>
  The nodes of a tree of depth \<open>D\<close>, and the absence of collisions among its store keys:
  distinct nodes have distinct keys and no node's key is the tree's name, the key of the
  metadata.
\<close>

definition valid_node :: "int \<Rightarrow> int \<Rightarrow> int \<Rightarrow> bool" where
  "valid_node D lvl idx = (0 \<le> lvl \<and> lvl \<le> D \<and> 0 \<le> idx \<and> idx < 2 ^ nat (D - lvl))"

definition keys_distinct :: "string \<Rightarrow> int \<Rightarrow> bool" where
  "keys_distinct nm D =
     ((\<forall>l i l' i'. valid_node D l i \<and> valid_node D l' i' \<and> nodeKey nm l i = nodeKey nm l' i'
          \<longrightarrow> l = l' \<and> i = i')
      \<and> (\<forall>l i. valid_node D l i \<longrightarrow> nodeKey nm l i \<noteq> nm))"

text \<open>
  A sequence of \<open>updateElement\<close> calls, each carried out whatever the previous one
  returned: a rejected call leaves behind what it had written.
\<close>

fun updates :: "(int \<times> bytes) list \<Rightarrow> tree \<Rightarrow> store \<Rightarrow> tree \<times> store" where
  "updates [] t db = (t, db)"
| "updates ((i, v) # us) t db =
     (case updateElement i v t db of (r, t', db') \<Rightarrow> updates us t' db')"

text \<open>
  The tree and the store that \<open>new\<close> returns for the name \<open>t\<close> and depth 1 on
  \<open>fresh_store\<close>.
\<close>

definition example_tree :: tree where
  "example_tree = \<lparr>name = ''t'', depth = 1, root = emptyHash_spec 1,
                    hasher = snd (emptyHash Sha256Hasher 1)\<rparr>"

definition example_store :: store where
  "example_store =
     \<lparr>cells = (\<lambda>k. NotFound)(''t'' := Found (meta_bytes (emptyHash_spec 1) 1)),
      refuses = (\<lambda>k. False),
      trace = [Get ''t'', Put ''t'' (meta_bytes (emptyHash_spec 1) 1)]\<rparr>"

text \<open>
  The relation between a node and its two children, and the trees in which it holds at
  every node outside a set of exceptions.
\<close>

definition rel :: "string \<Rightarrow> (string \<Rightarrow> fetched) \<Rightarrow> int \<Rightarrow> int \<Rightarrow> bool" where
  "rel nm cs l j =
     (node_value nm cs l j
        = compress (node_value nm cs (l - 1) (2 * j)) (node_value nm cs (l - 1) (2 * j + 1)))"

definition consistent_except ::
  "string \<Rightarrow> int \<Rightarrow> (string \<Rightarrow> fetched) \<Rightarrow> (int \<times> int) set \<Rightarrow> bool" where
  "consistent_except nm D cs E =
     (\<forall>l j. 1 \<le> l \<and> valid_node D l j \<and> (l, j) \<notin> E \<longrightarrow> rel nm cs l j)"

text \<open>
  Modelled from the spec: the verification of a hash path, which the repository leaves to
  an external verifier. Folding \<open>compress\<close> bottom-up: the compression of each pair is the
  component of the next pair on the side of the index at that level, and the compression
  of the top pair is the root.
\<close>

fun folds_to :: "int \<Rightarrow> HashPath \<Rightarrow> bytes \<Rightarrow> bool" where
  "folds_to idx [] r = False"
| "folds_to idx [(a, b)] r = (compress a b = r)"
| "folds_to idx ((a, b) # (c, d) # ps) r =
     (compress a b = (if even (idx div 2) then c else d) \<and> folds_to (idx div 2) ((c, d) # ps) r)"

section \<open>Properties of the hasher\<close>

text \<open>The digest of the three bytes \<open>abc\<close>, as FIPS 180-4 lists it.\<close>

lemma sha256_abc:
  "sha256 [0x61, 0x62, 0x63] =
     [0xba, 0x78, 0x16, 0xbf, 0x8f, 0x01, 0xcf, 0xea, 0x41, 0x41, 0x40, 0xde, 0x5d, 0xae, 0x22, 0x23,
      0xb0, 0x03, 0x61, 0xa3, 0x96, 0x17, 0x7a, 0x9c, 0xb4, 0x10, 0xff, 0x61, 0xf2, 0x00, 0x15, 0xad]"
  by code_simp

lemma length_rounds: "length st = 8 \<Longrightarrow> length (rounds ks ws st) = 8"
  by (induction ks ws st rule: rounds.induct) (auto simp: Let_def)

lemma length_sha_block: "length st = 8 \<Longrightarrow> length (sha_block st ws) = 8"
  by (simp add: sha_block_def length_rounds)

lemma length_foldl_sha_block: "length st = 8 \<Longrightarrow> length (foldl sha_block st bs) = 8"
  by (induction bs arbitrary: st) (simp_all add: length_sha_block)

lemma length_concat_w32_bytes: "length (concat (map w32_bytes ws)) = 4 * length ws"
  by (induction ws) (simp_all add: w32_bytes_def)

lemma length_sha256: "length (sha256 m) = 32"
  by (simp add: sha256_def Let_def length_concat_w32_bytes length_foldl_sha_block H256_def)

lemma length_hash [simp]: "length (hash data) = 32"
  by (simp add: hash_def length_sha256)

lemma length_compress [simp]: "length (compress lhs rhs) = 32"
  by (simp add: compress_def length_sha256)

lemma cache_ok_Sha256Hasher [simp]: "cache_ok Sha256Hasher"
  by (simp add: cache_ok_def Sha256Hasher_def)

lemma cache_ok_last:
  assumes "cache_ok cache"
  shows "last cache = emptyHash_spec (length cache - 1)"
proof -
  from assms have ne: "cache \<noteq> []" and eq: "cache = map emptyHash_spec [0..<length cache]"
    by (simp_all add: cache_ok_def)
  have "last cache = cache ! (length cache - 1)"
    using ne by (simp add: last_conv_nth)
  also have "\<dots> = map emptyHash_spec [0..<length cache] ! (length cache - 1)"
    using eq by simp
  also have "\<dots> = emptyHash_spec (length cache - 1)"
    using ne by simp
  finally show ?thesis .
qed

lemma cache_ok_push:
  assumes "cache_ok cache"
  shows "cache_ok (cache @ [compress (last cache) (last cache)])"
proof -
  from assms have ne: "cache \<noteq> []" and eq: "cache = map emptyHash_spec [0..<length cache]"
    by (simp_all add: cache_ok_def)
  obtain n where n: "length cache = Suc n"
    using ne by (cases cache) auto
  have "compress (last cache) (last cache) = emptyHash_spec (length cache)"
    using cache_ok_last [OF assms] n by simp
  then have "cache @ [compress (last cache) (last cache)]
             = map emptyHash_spec [0..<length cache] @ [emptyHash_spec (length cache)]"
    using eq by simp
  then show ?thesis
    by (simp add: cache_ok_def)
qed

lemma emptyHash_loop_ok:
  "cache_ok cache \<Longrightarrow>
     cache_ok (emptyHash_loop d cache) \<and> d < length (emptyHash_loop d cache)"
proof (induction d cache rule: emptyHash_loop.induct)
  case (1 d cache)
  show ?case
  proof (cases "int d \<ge> int (length cache) - 1")
    case True
    then show ?thesis
      using "1.IH" [OF True cache_ok_push [OF "1.prems"]]
      by (subst (1 2) emptyHash_loop.simps) simp
  next
    case False
    then show ?thesis
      using "1.prems" by (subst (1 2) emptyHash_loop.simps) simp
  qed
qed

lemma cache_ok_nth: "cache_ok cache \<Longrightarrow> d < length cache \<Longrightarrow> cache ! d = emptyHash_spec d"
proof -
  assume ok: "cache_ok cache" and d: "d < length cache"
  from ok have "cache = map emptyHash_spec [0..<length cache]"
    by (simp add: cache_ok_def)
  then have "cache ! d = map emptyHash_spec [0..<length cache] ! d"
    by simp
  then show ?thesis
    using d by simp
qed

lemma emptyHash_correct:
  "cache_ok cache \<Longrightarrow> fst (emptyHash cache d) = emptyHash_spec d"
  using emptyHash_loop_ok [of cache d]
  by (simp add: emptyHash_def Let_def cache_ok_nth)

lemma emptyHash_cache_ok:
  "cache_ok cache \<Longrightarrow> cache_ok (snd (emptyHash cache d))"
  using emptyHash_loop_ok [of cache d]
  by (simp add: emptyHash_def Let_def)

section \<open>The bitwise operators on indices\<close>

text \<open>
  On \<open>[0, 2\<^sup>3\<^sup>1)\<close> the operators are the arithmetic the source comments describe:
  \<^verbatim>\<open>index ^ 1\<close> is the sibling, \<^verbatim>\<open>index & 1\<close> the parity and \<^verbatim>\<open>index >> 1\<close> the half. From
  \<open>2\<^sup>3\<^sup>1\<close> on, \<^verbatim>\<open>index ^ 1\<close> is negative.
\<close>

lemma sint_small: "0 \<le> a \<Longrightarrow> a < 2147483648 \<Longrightarrow> sint (word_of_int a :: 32 word) = a"
  by (simp add: sint_sbintrunc' signed_take_bit_int_eq_self)

lemma js_shr_1: "0 \<le> a \<Longrightarrow> a < 2147483648 \<Longrightarrow> js_shr a 1 = a div 2"
  by (simp add: js_shr_def sint_signed_drop_bit_eq sint_small drop_bit_eq_div)

lemma js_and_1: "0 \<le> a \<Longrightarrow> a < 2147483648 \<Longrightarrow> js_and a 1 = a mod 2"
proof -
  assume a: "0 \<le> a" "a < 2147483648"
  have "(word_of_int a :: 32 word) AND word_of_int 1 = word_of_int (a AND 1)"
    by (simp only: word_wi_log_defs)
  then have "js_and a 1 = sint (word_of_int (a AND 1) :: 32 word)"
    by (simp add: js_and_def)
  also have "a AND 1 = a mod 2"
    by (simp add: and_one_eq)
  also have "sint (word_of_int (a mod 2) :: 32 word) = a mod 2"
    by (rule sint_small) (use a in auto)
  finally show ?thesis .
qed

lemma js_xor_1:
  assumes "0 \<le> a" "a < 2147483648"
  shows "js_xor a 1 = (if even a then a + 1 else a - 1)"
proof -
  have "(word_of_int a :: 32 word) XOR word_of_int 1 = word_of_int (a XOR 1)"
    by (simp only: word_wi_log_defs)
  then have "js_xor a 1 = sint (word_of_int (a XOR 1) :: 32 word)"
    by (simp add: js_xor_def)
  also have "a XOR 1 = (if even a then a + 1 else a - 1)"
    by (simp add: xor_one_eq)
  also have "sint (word_of_int (if even a then a + 1 else a - 1) :: 32 word) = (if even a then a + 1 else a - 1)"
    by (rule sint_small) (use assms in \<open>auto elim: oddE\<close>)
  finally show ?thesis .
qed

lemma sint_large:
  assumes "2147483648 \<le> a" "a < 4294967296"
  shows "sint (word_of_int a :: 32 word) = a - 4294967296"
proof -
  have "a + 2147483648 = a - 2147483648 + 4294967296"
    by arith
  then have "(a + 2147483648) mod 4294967296 = (a - 2147483648 + 4294967296) mod 4294967296"
    by (rule arg_cong)
  also have "\<dots> = (a - 2147483648) mod 4294967296"
    by (simp only: mod_add_self2)
  also have "\<dots> = a - 2147483648"
    using assms by (intro mod_pos_pos_trivial) auto
  finally show ?thesis
    by (simp add: int_word_sint)
qed

lemma js_xor_1_neg:
  assumes "2147483648 \<le> a" "a < 4294967296"
  shows "js_xor a 1 < 0"
proof -
  have "(word_of_int a :: 32 word) XOR word_of_int 1 = word_of_int (a XOR 1)"
    by (simp only: word_wi_log_defs)
  then have "js_xor a 1 = sint (word_of_int (a XOR 1) :: 32 word)"
    by (simp add: js_xor_def)
  also have "a XOR 1 = (if even a then a + 1 else a - 1)"
    by (simp add: xor_one_eq)
  finally have eq: "js_xor a 1 = sint (word_of_int (if even a then a + 1 else a - 1) :: 32 word)" .
  have rng: "2147483648 \<le> (if even a then a + 1 else a - 1) \<and> (if even a then a + 1 else a - 1) < 4294967296"
    using assms by (auto elim!: oddE evenE)
  show ?thesis 
    using sint_large [of "if even a then a + 1 else a - 1"] rng eq by auto
qed

section \<open>Keys, reads and writes\<close>

lemma length_le32 [simp]: "length (le32 v) = 4"
  by (simp add: le32_def)

lemma generateKey_eq:
  "generateKey t lvl idx =
     (if u32 lvl \<and> u32 idx then Inr (hash (Buffer_from (name t) @ le32 lvl @ le32 idx))
      else Inl RangeError)"
  by (simp add: generateKey_def writeUInt32LE_def u32_def)

lemma reads_only_refl [simp]: "reads_only db db"
  by (simp add: reads_only_def)

lemma reads_only_iff:
  "reads_only db db' \<longleftrightarrow>
     cells db' = cells db \<and> refuses db' = refuses db
     \<and> (\<exists>gs. trace db' = trace db @ gs \<and> list_all is_Get gs)"
proof -
  have "(take (length (trace db)) (trace db') = trace db
          \<and> list_all is_Get (drop (length (trace db)) (trace db')))
        \<longleftrightarrow> (\<exists>gs. trace db' = trace db @ gs \<and> list_all is_Get gs)"
  proof
    assume h: "take (length (trace db)) (trace db') = trace db
          \<and> list_all is_Get (drop (length (trace db)) (trace db'))"
    have "trace db' = take (length (trace db)) (trace db') @ drop (length (trace db)) (trace db')"
      by simp
    with h have "trace db' = trace db @ drop (length (trace db)) (trace db')"
      by simp
    with h show "\<exists>gs. trace db' = trace db @ gs \<and> list_all is_Get gs"
      by blast
  next
    assume "\<exists>gs. trace db' = trace db @ gs \<and> list_all is_Get gs"
    then show "take (length (trace db)) (trace db') = trace db
          \<and> list_all is_Get (drop (length (trace db)) (trace db'))"
      by auto
  qed
  then show ?thesis
    by (auto simp: reads_only_def)
qed

lemma reads_only_trans: "reads_only a b \<Longrightarrow> reads_only b c \<Longrightarrow> reads_only a c"
proof -
  assume ab: "reads_only a b" and bc: "reads_only b c"
  from ab obtain g1 where g1: "trace b = trace a @ g1" "list_all is_Get g1"
    unfolding reads_only_iff by blast
  from bc obtain g2 where g2: "trace c = trace b @ g2" "list_all is_Get g2"
    unfolding reads_only_iff by blast
  have "trace c = trace a @ (g1 @ g2)" "list_all is_Get (g1 @ g2)"
    using g1 g2 by simp_all
  then have "\<exists>gs. trace c = trace a @ gs \<and> list_all is_Get gs"
    by blast
  then show ?thesis
    using ab bc unfolding reads_only_iff by simp
qed

lemma reads_only_db_get: "reads_only db (snd (db_get db k))"
  by (simp add: reads_only_def db_get_def)

lemma same_tree_refl [simp]: "same_tree t t"
  by (simp add: same_tree_def)

lemma same_tree_trans: "same_tree a b \<Longrightarrow> same_tree b c \<Longrightarrow> same_tree a c"
  by (simp add: same_tree_def)

lemma readNode_ok:
  assumes "u32 lvl" "u32 idx" "cache_ok (hasher t)"
  shows "\<exists>t' db'. readNode lvl idx t db = (Inr (node_value (name t) (cells db) lvl idx), t', db')
           \<and> same_tree t t' \<and> cache_ok (hasher t') \<and> reads_only db db'"
proof (cases "cells db (nodeKey (name t) lvl idx)")
  case (Found v)
  then show ?thesis
    using assms
    by (simp add: readNode_def generateKey_eq nodeKey_def node_value_def db_get_def reads_only_def)
next
  case NotFound
  then show ?thesis
    using assms emptyHash_correct [of "hasher t" "nat lvl"] emptyHash_cache_ok [of "hasher t" "nat lvl"]
    by (auto simp add: readNode_def generateKey_eq nodeKey_def node_value_def db_get_def
        reads_only_def same_tree_def split: prod.splits)
next
  case Failure
  then show ?thesis
    using assms emptyHash_correct [of "hasher t" "nat lvl"] emptyHash_cache_ok [of "hasher t" "nat lvl"]
    by (auto simp add: readNode_def generateKey_eq nodeKey_def node_value_def db_get_def
        reads_only_def same_tree_def split: prod.splits)
qed

lemma readNode_err:
  "\<not> (u32 lvl \<and> u32 idx) \<Longrightarrow> readNode lvl idx t db = (Inl RangeError, t, db)"
  by (auto simp add: readNode_def generateKey_eq)

lemma writeNode_eq:
  "length v \<le> 64 \<Longrightarrow> u32 lvl \<Longrightarrow> u32 idx \<Longrightarrow>
     writeNode lvl idx v t db = db_put db (nodeKey (name t) lvl idx) v"
  by (simp add: writeNode_def generateKey_eq nodeKey_def LEAF_BYTES_def)

section \<open>The iterations of getHashPath and updateElement\<close>

text \<open>
  For an index below \<open>2\<^sup>3\<^sup>1\<close> the loop of \<open>getHashPath\<close> returns \<open>path_spec\<close> and the loop
  of \<open>updateElement\<close> does what \<open>climb\<close> does to the cells; both leave the tree's name,
  depth and root alone and keep the hasher's cache sound.
\<close>

lemma i31_sibling:
  assumes "0 \<le> idx" "idx < 2147483648"
  shows "js_xor idx 1 = (if even idx then idx + 1 else idx - 1)" "u32 (js_xor idx 1)" "u32 idx"
    "js_shr idx 1 = idx div 2" "(js_and idx 1 = 0) = even idx"
    "0 \<le> idx div 2" "idx div 2 < 2147483648"
proof -
  show x: "js_xor idx 1 = (if even idx then idx + 1 else idx - 1)"
    using assms by (rule js_xor_1)
  show "u32 (js_xor idx 1)"
    unfolding x using assms by (auto simp: u32_def elim: oddE)
  show "u32 idx"
    using assms by (simp add: u32_def)
  show "js_shr idx 1 = idx div 2"
    using assms by (rule js_shr_1)
  show "(js_and idx 1 = 0) = even idx"
    using js_and_1 [OF assms] by (simp add: even_iff_mod_2_eq_zero)
  show "0 \<le> idx div 2" "idx div 2 < 2147483648"
    using assms by auto
qed

lemma getHashPath_loop_ok:
  "0 \<le> d \<Longrightarrow> depth t \<le> 32 \<Longrightarrow> 0 \<le> idx \<Longrightarrow> idx < 2147483648 \<Longrightarrow> cache_ok (hasher t) \<Longrightarrow>
   \<exists>t' db'. getHashPath_loop t db d idx acc
               = (Inr (acc @ path_spec (name t) (cells db) d idx (nat (depth t - d))), t', db')
            \<and> same_tree t t' \<and> cache_ok (hasher t') \<and> reads_only db db'"
proof (induction t db d idx acc rule: getHashPath_loop.induct)
  case (1 t db d idx acc)
  note sib = i31_sibling [OF "1.prems"(3,4)]
  show ?case
  proof (cases "d < depth t")
    case False
    then show ?thesis
      using "1.prems" by (subst getHashPath_loop.simps) simp
  next
    case True
    have ud: "u32 d"
      using True "1.prems" by (simp add: u32_def)
    obtain t1 db1 where r1:
      "readNode d (js_xor idx 1) t db
         = (Inr (node_value (name t) (cells db) d (js_xor idx 1)), t1, db1)"
      "same_tree t t1" "cache_ok (hasher t1)" "reads_only db db1"
      using readNode_ok [OF ud sib(2) "1.prems"(5), of db] by blast
    obtain t2 db2 where r2:
      "readNode d idx t1 db1 = (Inr (node_value (name t1) (cells db1) d idx), t2, db2)"
      "same_tree t1 t2" "cache_ok (hasher t2)" "reads_only db1 db2"
      using readNode_ok [OF ud sib(3) r1(3), of db1] by blast
    have eqs: "name t1 = name t" "name t2 = name t" "depth t2 = depth t"
      "cells db1 = cells db" "cells db2 = cells db"
      using r1 r2 by (simp_all add: same_tree_def reads_only_def)
    define acc' where "acc' = acc @ [if js_and idx 1 = 0
        then (node_value (name t1) (cells db1) d idx, node_value (name t) (cells db) d (js_xor idx 1))
        else (node_value (name t) (cells db) d (js_xor idx 1), node_value (name t1) (cells db1) d idx)]"
    have "\<exists>t' db'. getHashPath_loop t2 db2 (d + 1) (js_shr idx 1) acc'
               = (Inr (acc' @ path_spec (name t2) (cells db2) (d + 1) (js_shr idx 1)
                                 (nat (depth t2 - (d + 1)))), t', db')
            \<and> same_tree t2 t' \<and> cache_ok (hasher t') \<and> reads_only db2 db'"
      unfolding acc'_def
      apply (rule "1.IH" [OF True refl r1(1) [symmetric] refl refl r2(1) [symmetric] refl refl])
      using "1.prems" sib eqs r2 by simp_all
    then obtain t' db' where r3:
      "getHashPath_loop t2 db2 (d + 1) (js_shr idx 1) acc'
               = (Inr (acc' @ path_spec (name t2) (cells db2) (d + 1) (js_shr idx 1)
                                 (nat (depth t2 - (d + 1)))), t', db')"
      "same_tree t2 t'" "cache_ok (hasher t')" "reads_only db2 db'"
      by blast
    obtain n where n: "nat (depth t - d) = Suc n" "nat (depth t - (d + 1)) = n"
      using True by (cases "nat (depth t - d)") auto
    have loop: "getHashPath_loop t db d idx acc = getHashPath_loop t2 db2 (d + 1) (js_shr idx 1) acc'"
      using True r1(1) r2(1) by (subst getHashPath_loop.simps) (simp add: acc'_def)
    have path: "acc' @ path_spec (name t2) (cells db2) (d + 1) (js_shr idx 1) (nat (depth t2 - (d + 1)))
        = acc @ path_spec (name t) (cells db) d idx (nat (depth t - d))"
      using sib n eqs by (auto simp: acc'_def)
    have "same_tree t t'" "reads_only db db'"
      using r1 r2 r3 by (blast intro: same_tree_trans reads_only_trans)+
    then show ?thesis
      using loop r3 path by simp
  qed
qed

lemma db_put_cases:
  "db_put db k v = (r, db') \<Longrightarrow>
     refuses db' = refuses db \<and>
     (if refuses db k then r = Inl StoreFailure \<and> cells db' = cells db
      else r = Inr () \<and> cells db' = (cells db)(k := Found v))"
  by (auto simp: db_put_def split: if_splits)

lemma updateElement_loop_climb:
  "1 \<le> d \<Longrightarrow> depth t \<le> 32 \<Longrightarrow> 0 \<le> idx \<Longrightarrow> idx < 2147483648 \<Longrightarrow> cache_ok (hasher t) \<Longrightarrow>
   \<exists>t' db'. updateElement_loop t db d idx hv
               = (fst (climb (name t) (refuses db) (cells db) d idx hv (nat (depth t + 1 - d))), t', db')
            \<and> cells db' = snd (climb (name t) (refuses db) (cells db) d idx hv (nat (depth t + 1 - d)))
            \<and> refuses db' = refuses db \<and> same_tree t t' \<and> cache_ok (hasher t')"
proof (induction t db d idx hv rule: updateElement_loop.induct)
  case (1 t db d idx hv)
  note sib = i31_sibling [OF "1.prems"(3,4)]
  let ?sv = "node_value (name t) (cells db) (d - 1) (js_xor idx 1)"
  let ?hv' = "if js_and idx 1 = 0 then compress hv ?sv else compress ?sv hv"
  let ?k = "nodeKey (name t) d (idx div 2)"
  show ?case
  proof (cases "d \<le> depth t")
    case False
    then show ?thesis
      using "1.prems" by (subst updateElement_loop.simps) simp
  next
    case True
    obtain n where n: "nat (depth t + 1 - d) = Suc n" "nat (depth t + 1 - (d + 1)) = n"
      using True by (cases "nat (depth t + 1 - d)") auto
    have ud: "u32 (d - 1)" "u32 d" "u32 (idx div 2)"
      using True "1.prems" by (simp_all add: u32_def)
    obtain t1 db1 where r1:
      "readNode (d - 1) (js_xor idx 1) t db = (Inr ?sv, t1, db1)"
      "same_tree t t1" "cache_ok (hasher t1)" "reads_only db db1"
      using readNode_ok [OF ud(1) sib(2) "1.prems"(5), of db] by blast
    have eqs: "name t1 = name t" "depth t1 = depth t" "cells db1 = cells db" "refuses db1 = refuses db"
      using r1 by (simp_all add: same_tree_def reads_only_def)
    have len: "length ?hv' \<le> 64"
      by simp
    have w: "writeNode d (js_shr idx 1) ?hv' t1 db1 = db_put db1 ?k ?hv'"
      unfolding sib(4) using writeNode_eq [OF len ud(2,3), of t1 db1] eqs by (simp only:)
    obtain r2 db2 where p: "db_put db1 ?k ?hv' = (r2, db2)"
      by (cases "db_put db1 ?k ?hv'")
    note pc = db_put_cases [OF p]
    have w': "writeNode d (js_shr idx 1) ?hv' t1 db1 = (r2, db2)"
      using w p by (simp only:)
    have unf: "updateElement_loop t db d idx hv =
       (case r2 of Inl e \<Rightarrow> (Inl e, t1, db2)
        | Inr _ \<Rightarrow> updateElement_loop t1 db2 (d + 1) (js_shr idx 1) ?hv')"
      by (subst updateElement_loop.simps)
         (simp only: True if_True Let_def r1(1) prod.case sum.case w')
    show ?thesis
    proof (cases "refuses db ?k")
      case rfk: True
      then have "updateElement_loop t db d idx hv = (Inl StoreFailure, t1, db2)"
        using unf pc eqs by simp
      moreover have "climb (name t) (refuses db) (cells db) d idx hv (Suc n) = (Inl StoreFailure, cells db)"
        using rfk by (simp add: Let_def)
      ultimately show ?thesis
        using n r1 pc eqs rfk by simp
    next
      case nrf: False
      then have r2: "r2 = Inr ()" and c2: "cells db2 = (cells db)(?k := Found ?hv')"
        and f2: "refuses db2 = refuses db"
        using pc eqs by simp_all
      have "\<exists>t' db'. updateElement_loop t1 db2 (d + 1) (js_shr idx 1) ?hv'
               = (fst (climb (name t1) (refuses db2) (cells db2) (d + 1) (js_shr idx 1) ?hv'
                     (nat (depth t1 + 1 - (d + 1)))), t', db')
            \<and> cells db' = snd (climb (name t1) (refuses db2) (cells db2) (d + 1) (js_shr idx 1) ?hv'
                     (nat (depth t1 + 1 - (d + 1))))
            \<and> refuses db' = refuses db2 \<and> same_tree t1 t' \<and> cache_ok (hasher t')"
        apply (rule "1.IH" [OF True refl r1(1) [symmetric] refl refl refl w' [symmetric] r2])
        using "1.prems" sib eqs r1 by simp_all
      then obtain t' db' where r3:
        "updateElement_loop t1 db2 (d + 1) (js_shr idx 1) ?hv'
               = (fst (climb (name t1) (refuses db2) (cells db2) (d + 1) (js_shr idx 1) ?hv'
                     (nat (depth t1 + 1 - (d + 1)))), t', db')"
        "cells db' = snd (climb (name t1) (refuses db2) (cells db2) (d + 1) (js_shr idx 1) ?hv'
                     (nat (depth t1 + 1 - (d + 1))))"
        "refuses db' = refuses db2" "same_tree t1 t'" "cache_ok (hasher t')"
        by blast
      have cl: "climb (name t) (refuses db) (cells db) d idx hv (Suc n)
          = climb (name t1) (refuses db2) (cells db2) (d + 1) (js_shr idx 1) ?hv' n"
        using nrf sib eqs c2 f2 by (simp add: Let_def)
      have "updateElement_loop t db d idx hv = updateElement_loop t1 db2 (d + 1) (js_shr idx 1) ?hv'"
        using unf r2 by simp
      moreover have "same_tree t t'"
        using r1 r3 by (blast intro: same_tree_trans)
      ultimately show ?thesis
        using r3 cl n eqs f2 by simp
    qed
  qed
qed

section \<open>updateElement as a function of the cells\<close>

lemma length_Buffer_copy [simp]: "length (Buffer_copy src dst) = length dst"
  by (simp add: Buffer_copy_def)

lemma writeMetaData_eq:
  "u32 (depth t) \<Longrightarrow> writeMetaData t db = db_put db (name t) (meta_bytes (root t) (depth t))"
  by (simp add: writeMetaData_def writeUInt32LE_def meta_bytes_def u32_def Let_def)

lemma updateElement_spec:
  assumes D: "1 \<le> depth t" "depth t \<le> 32" and ok: "cache_ok (hasher t)"
    and idx: "0 \<le> idx" "idx < 2147483648"
  shows "\<exists>r t' db'. updateElement idx v t db = (r, t', db')
           \<and> (r, root t', cells db') = update_spec (name t) (depth t) (root t) (refuses db) (cells db) idx v
           \<and> name t' = name t \<and> depth t' = depth t \<and> cache_ok (hasher t')
           \<and> refuses db' = refuses db"
proof -
  let ?k0 = "nodeKey (name t) 0 idx"
  let ?h0 = "hash v"
  have u: "u32 0" "u32 idx" "u32 (depth t)"
    using D idx by (simp_all add: u32_def)
  have w0: "writeNode 0 idx ?h0 t db = db_put db ?k0 ?h0"
    using writeNode_eq [of ?h0 0 idx t db] u by simp
  obtain r0 db0 where p0: "db_put db ?k0 ?h0 = (r0, db0)"
    by (cases "db_put db ?k0 ?h0")
  note pc0 = db_put_cases [OF p0]
  show ?thesis
  proof (cases "refuses db ?k0")
    case True
    then have "updateElement idx v t db = (Inl StoreFailure, t, db0)"
      using w0 p0 pc0 by (simp add: updateElement_def Let_def)
    then show ?thesis
      using True pc0 ok by (simp add: update_spec_def)
  next
    case False
    then have r0: "r0 = Inr ()" and c0: "cells db0 = (cells db)(?k0 := Found ?h0)"
      and f0: "refuses db0 = refuses db"
      using pc0 by simp_all
    let ?cl = "climb (name t) (refuses db0) (cells db0) 1 idx ?h0 (nat (depth t + 1 - 1))"
    obtain t1 db1 where l:
      "updateElement_loop t db0 1 idx ?h0 = (fst ?cl, t1, db1)"
      "cells db1 = snd ?cl" "refuses db1 = refuses db0" "same_tree t t1" "cache_ok (hasher t1)"
      using updateElement_loop_climb [of 1 t idx db0 ?h0] D idx ok by auto
    have st: "name t1 = name t" "depth t1 = depth t" "root t1 = root t"
      using l(4) by (simp_all add: same_tree_def)
    have unf: "updateElement idx v t db =
        (case fst ?cl of Inl e \<Rightarrow> (Inl e, t1, db1)
         | Inr hv \<Rightarrow> (case writeMetaData (t1\<lparr>root := hv\<rparr>) db1 of
               (Inl e, db3) \<Rightarrow> (Inl e, t1\<lparr>root := hv\<rparr>, db3)
             | (Inr _, db3) \<Rightarrow> (Inr (root (t1\<lparr>root := hv\<rparr>)), t1\<lparr>root := hv\<rparr>, db3)))"
      using w0 p0 r0 l(1) by (simp add: updateElement_def Let_def split: sum.splits)
    show ?thesis
    proof (cases "fst ?cl")
      case (Inl e)
      then have "updateElement idx v t db = (Inl e, t1, db1)"
        using unf by simp
      moreover have "update_spec (name t) (depth t) (root t) (refuses db) (cells db) idx v
          = (Inl e, root t, snd ?cl)"
        using False Inl c0 f0 by (auto simp add: update_spec_def split: prod.splits)
      ultimately show ?thesis
        using l st f0 by simp
    next
      case (Inr h)
      let ?t2 = "t1\<lparr>root := h\<rparr>"
      have wm: "writeMetaData ?t2 db1 = db_put db1 (name t) (meta_bytes h (depth t))"
        using writeMetaData_eq [of ?t2 db1] u st by simp
      obtain r3 db3 where p3: "db_put db1 (name t) (meta_bytes h (depth t)) = (r3, db3)"
        by (cases "db_put db1 (name t) (meta_bytes h (depth t))")
      note pc3 = db_put_cases [OF p3]
      have cl: "climb (name t) (refuses db) ((cells db)(?k0 := Found ?h0)) 1 idx ?h0 (nat (depth t))
          = (Inr h, cells db1)"
        using Inr l(2) c0 f0 by (simp add: prod_eq_iff)
      show ?thesis
      proof (cases "refuses db (name t)")
        case True
        then have "updateElement idx v t db = (Inl StoreFailure, ?t2, db3)"
          using unf Inr wm p3 pc3 l(3) f0 by simp
        moreover have "update_spec (name t) (depth t) (root t) (refuses db) (cells db) idx v
          = (Inl StoreFailure, h, cells db1)"
          using False True cl by (simp add: update_spec_def)
        ultimately show ?thesis
          using l st f0 pc3 True by simp
      next
        case nr: False
        then have "updateElement idx v t db = (Inr h, ?t2, db3)"
          using unf Inr wm p3 pc3 l(3) f0 by simp
        moreover have "update_spec (name t) (depth t) (root t) (refuses db) (cells db) idx v
          = (Inr h, h, (cells db1)(name t := Found (meta_bytes h (depth t))))"
          using False nr cl by (simp add: update_spec_def)
        ultimately show ?thesis
          using l st f0 pc3 nr by simp
      qed
    qed
  qed
qed

lemma updateElement_high:
  assumes D: "1 \<le> depth t" and idx: "2147483648 \<le> idx" "idx < 4294967296"
  shows "\<exists>e db'. updateElement idx v t db = (Inl e, t, db')
           \<and> refuses db' = refuses db
           \<and> cells db' = (if refuses db (nodeKey (name t) 0 idx) then cells db
                           else (cells db)(nodeKey (name t) 0 idx := Found (hash v)))"
proof -
  let ?k0 = "nodeKey (name t) 0 idx"
  let ?h0 = "hash v"
  have u: "u32 0" "u32 idx"
    using idx by (simp_all add: u32_def)
  have w0: "writeNode 0 idx ?h0 t db = db_put db ?k0 ?h0"
    using writeNode_eq [of ?h0 0 idx t db] u by simp
  obtain r0 db0 where p0: "db_put db ?k0 ?h0 = (r0, db0)"
    by (cases "db_put db ?k0 ?h0")
  note pc0 = db_put_cases [OF p0]
  have neg: "\<not> (u32 0 \<and> u32 (js_xor idx 1))"
    using js_xor_1_neg [OF idx] by (simp add: u32_def)
  have "updateElement_loop t db0 1 idx ?h0 = (Inl RangeError, t, db0)"
    using D readNode_err [OF neg, of t db0]
    by (subst updateElement_loop.simps) (simp add: Let_def)
  then show ?thesis
    using w0 p0 pc0 by (auto simp add: updateElement_def Let_def split: sum.splits)
qed

section \<open>Construction\<close>

lemma MerkleTree_None:
  "1 \<le> D \<Longrightarrow> D \<le> 32 \<Longrightarrow>
     MerkleTree nm D None = Inr \<lparr>name = nm, depth = D, root = emptyHash_spec (nat D),
        hasher = snd (emptyHash Sha256Hasher (nat D))\<rparr>"
  using emptyHash_correct [of Sha256Hasher "nat D"]
  by (auto simp add: MerkleTree_def MAX_DEPTH_def split: prod.splits)


lemma new_fresh:
  assumes "1 \<le> D" "D \<le> 32" and "\<forall>v. cells db nm \<noteq> Found v" and "\<not> refuses db nm"
  shows "new db nm D =
    (Inr \<lparr>name = nm, depth = D, root = emptyHash_spec (nat D),
          hasher = snd (emptyHash Sha256Hasher (nat D))\<rparr>,
     db\<lparr>cells := (cells db)(nm := Found (meta_bytes (emptyHash_spec (nat D)) D)),
        trace := trace db @ [Get nm, Put nm (meta_bytes (emptyHash_spec (nat D)) D)]\<rparr>)"
proof -
  let ?t = "\<lparr>name = nm, depth = D, root = emptyHash_spec (nat D),
          hasher = snd (emptyHash Sha256Hasher (nat D))\<rparr>"
  have g: "db_get db nm = (cells db nm, db\<lparr>trace := trace db @ [Get nm]\<rparr>)"
    by (simp add: db_get_def)
  have w: "writeMetaData ?t (db\<lparr>trace := trace db @ [Get nm]\<rparr>)
      = db_put (db\<lparr>trace := trace db @ [Get nm]\<rparr>) nm (meta_bytes (emptyHash_spec (nat D)) D)"
    using writeMetaData_eq [of ?t] assms(1,2) by (simp add: u32_def)
  show ?thesis
    using assms(3,4) MerkleTree_None [OF assms(1,2), of nm]
    by (cases "cells db nm") (simp_all add: new_def g w db_put_def)
qed

section \<open>Read-only operations\<close>

lemma readNode_frame:
  "same_tree t (fst (snd (readNode lvl idx t db))) \<and> reads_only db (snd (snd (readNode lvl idx t db)))"
  by (auto simp: readNode_def same_tree_def reads_only_def db_get_def
      split: sum.splits prod.splits fetched.splits)

lemma getHashPath_loop_frame:
  "same_tree t (fst (snd (getHashPath_loop t db d idx acc)))
   \<and> reads_only db (snd (snd (getHashPath_loop t db d idx acc)))"
proof (induction t db d idx acc rule: getHashPath_loop.induct)
  case (1 t db d idx acc)
  show ?case
  proof (cases "d < depth t")
    case False
    then show ?thesis
      by (subst (1 2) getHashPath_loop.simps) simp
  next
    case True
    obtain r1 t1 db1 where r1: "readNode d (js_xor idx 1) t db = (r1, t1, db1)"
      by (cases "readNode d (js_xor idx 1) t db")
    have f1: "same_tree t t1" "reads_only db db1"
      using readNode_frame [of t d "js_xor idx 1" db] r1 by simp_all
    show ?thesis
    proof (cases r1)
      case (Inl e)
      then show ?thesis
        using True r1 f1 by (subst (1 2) getHashPath_loop.simps) simp
    next
      case sh: (Inr siblingHash)
      obtain r2 t2 db2 where r2: "readNode d idx t1 db1 = (r2, t2, db2)"
        by (cases "readNode d idx t1 db1")
      have f2: "same_tree t1 t2" "reads_only db1 db2"
        using readNode_frame [of t1 d idx db1] r2 by simp_all
      have f12: "same_tree t t2" "reads_only db db2"
        using f1 f2 by (blast intro: same_tree_trans reads_only_trans)+
      show ?thesis
      proof (cases r2)
        case (Inl e)
        then show ?thesis
          using True r1 sh r2 f12 by (subst (1 2) getHashPath_loop.simps) simp
      next
        case nh: (Inr nodeHash)
        let ?acc = "acc @ [if js_and idx 1 = 0 then (nodeHash, siblingHash)
                                 else (siblingHash, nodeHash)]"
        have IH: "same_tree t2 (fst (snd (getHashPath_loop t2 db2 (d + 1) (js_shr idx 1) ?acc)))
          \<and> reads_only db2 (snd (snd (getHashPath_loop t2 db2 (d + 1) (js_shr idx 1) ?acc)))"
          using r1 r2 unfolding sh nh
          by (intro "1.IH" [OF True refl sym refl refl sym refl refl])
        have "getHashPath_loop t db d idx acc = getHashPath_loop t2 db2 (d + 1) (js_shr idx 1) ?acc"
          using True r1 sh r2 nh by (subst getHashPath_loop.simps) simp
        then show ?thesis
          using IH f12 by (auto intro: same_tree_trans reads_only_trans)
      qed
    qed
  qed
qed

section \<open>Successful updates and the metadata record\<close>

lemma climb_length:
  "climb nm rf cs d idx hv n = (Inr h, cs') \<Longrightarrow> length hv = 32 \<Longrightarrow> length h = 32"
proof (induction n arbitrary: cs d idx hv)
  case 0
  then show ?case by simp
next
  case (Suc n)
  then show ?case
    by (auto simp: Let_def split: if_splits)
qed

lemma climb_accepting:
  "\<forall>k. \<not> rf k \<Longrightarrow> \<exists>h cs'. climb nm rf cs d idx hv n = (Inr h, cs')"
  by (induction n arbitrary: cs d idx hv) (simp_all add: Let_def)

lemma meta_bytes_32: "length r = 32 \<Longrightarrow> meta_bytes r D = r @ le32 D @ replicate 4 0"
  by (simp add: meta_bytes_def Buffer_copy_def Let_def)

lemma uint_byte_of_int: "uint (word_of_int x :: byte) = x mod 256"
  by (simp add: uint_word_of_int)

lemma le32_value:
  assumes "0 \<le> D" "D \<le> 4294967295"
  shows "D mod 256 + 256 * (D div 256 mod 256) + 65536 * (D div 65536 mod 256)
        + 16777216 * (D div 16777216 mod 256) = (D::int)"
proof -
  have a: "D = D mod 256 + 256 * (D div 256)"
    by simp
  have "D div 256 div 256 = D div 65536" "D div 65536 div 256 = D div 16777216"
    by (simp_all add: zdiv_zmult2_eq [symmetric])
  then have b: "D div 256 = D div 256 mod 256 + 256 * (D div 65536)"
    and c: "D div 65536 = D div 65536 mod 256 + 256 * (D div 16777216)"
    using mod_mult_div_eq [of "D div 256" 256] mod_mult_div_eq [of "D div 65536" 256]
    by simp_all
  have "0 \<le> D div 16777216" "D div 16777216 < 256"
    using assms by simp_all
  then have d: "D div 16777216 mod 256 = D div 16777216"
    by simp
  show ?thesis
    using a b c d by linarith
qed

lemma nth32:
  assumes "length r = 32"
  shows "(r @ le32 D @ rest) ! 32 = word_of_int D"
    "(r @ le32 D @ rest) ! (32 + 1) = word_of_int (D div 256)"
    "(r @ le32 D @ rest) ! (32 + 2) = word_of_int (D div 65536)"
    "(r @ le32 D @ rest) ! (32 + 3) = word_of_int (D div 16777216)"
proof -
  have "(r @ le32 D @ rest) ! (length r + k) = (le32 D @ rest) ! k" for k
    by (simp only: nth_append_length_plus)
  then have "(r @ le32 D @ rest) ! (32 + k) = (le32 D @ rest) ! k" for k
    using assms by simp
  note n = this
  show "(r @ le32 D @ rest) ! 32 = word_of_int D"
    using n [of 0] by (simp add: le32_def)
  show "(r @ le32 D @ rest) ! (32 + 1) = word_of_int (D div 256)"
    unfolding n by (simp add: le32_def)
  show "(r @ le32 D @ rest) ! (32 + 2) = word_of_int (D div 65536)"
    unfolding n by (simp add: le32_def)
  show "(r @ le32 D @ rest) ! (32 + 3) = word_of_int (D div 16777216)"
    unfolding n by (simp add: le32_def eval_nat_numeral)
qed

lemma readUInt32LE_le32:
  assumes "u32 D" "length r = 32"
  shows "readUInt32LE (r @ le32 D @ rest) 32 = Inr D"
proof -
  have "readUInt32LE (r @ le32 D @ rest) 32
      = Inr (uint ((r @ le32 D @ rest) ! 32) + 256 * uint ((r @ le32 D @ rest) ! (32 + 1))
             + 65536 * uint ((r @ le32 D @ rest) ! (32 + 2))
             + 16777216 * uint ((r @ le32 D @ rest) ! (32 + 3)))"
    using assms(2) by (simp add: readUInt32LE_def)
  also have "\<dots> = Inr (D mod 256 + 256 * (D div 256 mod 256) + 65536 * (D div 65536 mod 256)
        + 16777216 * (D div 16777216 mod 256))"
    by (simp only: nth32 [OF assms(2)] uint_byte_of_int)
  also have "\<dots> = Inr D"
    using assms(1) by (simp only: le32_value u32_def)
  finally show ?thesis .
qed

lemma updateElement_Inr_index:
  assumes "1 \<le> depth t" and "updateElement idx v t db = (Inr r, t', db')"
  shows "0 \<le> idx \<and> idx < 2147483648"
proof (rule ccontr)
  assume n: "\<not> (0 \<le> idx \<and> idx < 2147483648)"
  show False
  proof (cases "u32 idx")
    case True
    then have "2147483648 \<le> idx" "idx < 4294967296"
      using n by (simp_all add: u32_def)
    from updateElement_high [OF assms(1) this, of v db] assms(2) show False
      by auto
  next
    case False
    then have "writeNode 0 idx (hash v) t db = (Inl RangeError, db)"
      by (simp add: writeNode_def generateKey_eq LEAF_BYTES_def)
    then show False
      using assms(2) by (simp add: updateElement_def Let_def)
  qed
qed

lemma updateElement_Inr:
  assumes D: "1 \<le> depth t" "depth t \<le> 32" and ok: "cache_ok (hasher t)"
    and up: "updateElement idx v t db = (Inr r, t', db')"
  shows "root t' = r \<and> length r = 32 \<and> name t' = name t \<and> depth t' = depth t
         \<and> cache_ok (hasher t') \<and> refuses db' = refuses db
         \<and> cells db' (name t) = Found (r @ le32 (depth t) @ replicate 4 0)"
proof -
  have idx: "0 \<le> idx" "idx < 2147483648"
    using updateElement_Inr_index [OF D(1) up] by simp_all
  from updateElement_spec [OF D ok idx, of v db] up
  have sp: "(Inr r, root t', cells db')
        = update_spec (name t) (depth t) (root t) (refuses db) (cells db) idx v"
    and rest: "name t' = name t" "depth t' = depth t" "cache_ok (hasher t')" "refuses db' = refuses db"
    by auto
  let ?k0 = "nodeKey (name t) 0 idx"
  obtain r1 cs1 where cl:
    "climb (name t) (refuses db) ((cells db)(?k0 := Found (hash v))) 1 idx (hash v) (nat (depth t)) = (r1, cs1)"
    by (cases "climb (name t) (refuses db) ((cells db)(?k0 := Found (hash v))) 1 idx (hash v) (nat (depth t))")
  from sp cl have r1: "r1 = Inr r" and rt: "root t' = r"
    and cs: "cells db' = cs1(name t := Found (meta_bytes r (depth t)))"
    by (auto simp: update_spec_def split: if_splits sum.splits)
  have len: "length r = 32"
    using climb_length [OF cl [unfolded r1]] by simp
  show ?thesis
    using rt len rest cs meta_bytes_32 [OF len] by simp
qed

lemma updateElement_accepting:
  assumes D: "1 \<le> depth t" "depth t \<le> 32" and ok: "cache_ok (hasher t)"
    and idx: "0 \<le> idx" "idx < 2147483648" and acc: "\<forall>k. \<not> refuses db k"
  shows "\<exists>h t' db'. updateElement idx v t db = (Inr h, t', db')"
proof -
  let ?k0 = "nodeKey (name t) 0 idx"
  obtain h cs1 where cl:
    "climb (name t) (refuses db) ((cells db)(?k0 := Found (hash v))) 1 idx (hash v) (nat (depth t)) = (Inr h, cs1)"
    using climb_accepting [OF acc] by blast
  have "fst (update_spec (name t) (depth t) (root t) (refuses db) (cells db) idx v) = Inr h"
    using acc cl by (simp add: update_spec_def)
  then show ?thesis
    using updateElement_spec [OF D ok idx, of v db] by (metis fst_conv)
qed

section \<open>The root node\<close>

lemma keys_distinctD:
  "keys_distinct nm D \<Longrightarrow> valid_node D l i \<Longrightarrow> valid_node D l' i' \<Longrightarrow>
     nodeKey nm l i = nodeKey nm l' i' \<Longrightarrow> l = l' \<and> i = i'"
  unfolding keys_distinct_def by blast

lemma keys_distinct_name:
  "keys_distinct nm D \<Longrightarrow> valid_node D l i \<Longrightarrow> nodeKey nm l i \<noteq> nm"
  unfolding keys_distinct_def by blast

lemma valid_root [simp]: "0 \<le> D \<Longrightarrow> valid_node D D 0"
  by (simp add: valid_node_def)





section \<open>A tree of depth 1\<close>

text \<open>
  The store keys of the three nodes of the tree \<open>t\<close> of depth 1, evaluated: the bytes of
  \<^verbatim>\<open>key.toString()\<close>. They are distinct and none is the name.
\<close>

lemma key_t_0_0:
  "map of_char (nodeKey ''t'' 0 0) =
     [25::nat, 239, 191, 189, 239, 191, 189, 38, 109, 96, 25, 239, 191, 189, 239, 191, 189, 76,
      108, 6, 239, 191, 189, 52, 79, 239, 191, 189, 239, 191, 189, 55, 48, 239, 191, 189, 58,
      239, 191, 189, 77, 87, 123, 239, 191, 189, 90, 239, 191, 189, 72, 105, 64]"
  by code_simp

lemma key_t_0_1:
  "map of_char (nodeKey ''t'' 0 1) =
     [239::nat, 191, 189, 1, 33, 239, 191, 189, 104, 239, 191, 189, 239, 191, 189, 126, 38, 239,
      191, 189, 239, 191, 189, 239, 191, 189, 85, 105, 80, 35, 239, 191, 189, 53, 239, 191, 189,
      71, 32, 65, 239, 191, 189, 239, 191, 189, 104, 239, 191, 189, 239, 191, 189, 37, 68, 239,
      191, 189, 239, 191, 189, 239, 191, 189]"
  by code_simp

lemma key_t_1_0:
  "map of_char (nodeKey ''t'' 1 0) =
     [18::nat, 60, 34, 96, 15, 39, 42, 239, 191, 189, 239, 191, 189, 239, 191, 189, 239, 191,
      189, 73, 80, 31, 107, 39, 239, 191, 189, 119, 239, 191, 189, 239, 191, 189, 239, 191, 189,
      50, 239, 191, 189, 239, 191, 189, 48, 239, 191, 189, 33, 239, 191, 189, 87, 239, 191, 189,
      116]"
  by code_simp

lemma example_keys:
  "nodeKey ''t'' 0 0 \<noteq> nodeKey ''t'' 0 1" "nodeKey ''t'' 0 0 \<noteq> nodeKey ''t'' 1 0"
  "nodeKey ''t'' 0 1 \<noteq> nodeKey ''t'' 1 0"
  "nodeKey ''t'' 0 0 \<noteq> ''t''" "nodeKey ''t'' 0 1 \<noteq> ''t''" "nodeKey ''t'' 1 0 \<noteq> ''t''"
proof -
  have t: "map of_char ''t'' = [116::nat]"
    by simp
  show "nodeKey ''t'' 0 0 \<noteq> nodeKey ''t'' 0 1"
    using key_t_0_0 key_t_0_1 by auto
  show "nodeKey ''t'' 0 0 \<noteq> nodeKey ''t'' 1 0"
    using key_t_0_0 key_t_1_0 by auto
  show "nodeKey ''t'' 0 1 \<noteq> nodeKey ''t'' 1 0"
    using key_t_0_1 key_t_1_0 by auto
  show "nodeKey ''t'' 0 0 \<noteq> ''t''"
    using key_t_0_0 t by auto
  show "nodeKey ''t'' 0 1 \<noteq> ''t''"
    using key_t_0_1 t by auto
  show "nodeKey ''t'' 1 0 \<noteq> ''t''"
    using key_t_1_0 t by auto
qed

lemma valid_node_1:
  "valid_node 1 l i \<Longrightarrow> (l = 0 \<and> (i = 0 \<or> i = 1)) \<or> (l = 1 \<and> i = 0)"
proof -
  assume v: "valid_node 1 l i"
  then have "l = 0 \<or> l = 1"
    by (auto simp: valid_node_def)
  then show ?thesis
  proof
    assume "l = 0"
    then show ?thesis
      using v by (auto simp: valid_node_def)
  next
    assume "l = 1"
    then show ?thesis
      using v by (auto simp: valid_node_def)
  qed
qed

lemma keys_distinct_example: "keys_distinct ''t'' 1"
  unfolding keys_distinct_def
proof (intro conjI allI impI)
  fix l i l' i'
  assume "valid_node 1 l i \<and> valid_node 1 l' i' \<and> nodeKey ''t'' l i = nodeKey ''t'' l' i'"
  then show "l = l'" "i = i'"
    using example_keys(1-3) example_keys(1-3) [symmetric]
    by (auto dest!: valid_node_1)
next
  fix l i
  assume "valid_node 1 l i"
  then show "nodeKey ''t'' l i \<noteq> ''t''"
    using example_keys(4-6) by (auto dest!: valid_node_1)
qed

lemma new_example: "new fresh_store ''t'' 1 = (Inr example_tree, example_store)"
proof -
  have "\<forall>v. cells fresh_store ''t'' \<noteq> Found v" "\<not> refuses fresh_store ''t''"
    by (simp_all add: fresh_store_def)
  from new_fresh [OF _ _ this, of 1] show ?thesis
    by (simp add: example_tree_def example_store_def fresh_store_def)
qed

lemma example_tree_ok:
  "depth example_tree = 1" "name example_tree = ''t''" "cache_ok (hasher example_tree)"
  using emptyHash_cache_ok [OF cache_ok_Sha256Hasher, of 1]
  by (simp_all add: example_tree_def)

lemma example_update:
  "fst (updateElement 0 v example_tree example_store)
     = Inr (compress (hash v) (hash (replicate 64 0)))"
proof -
  have sp: "fst (updateElement 0 v example_tree example_store)
      = fst (update_spec ''t'' 1 (root example_tree) (refuses example_store)
               (cells example_store) 0 v)"
    using updateElement_spec [of example_tree 0 v example_store] example_tree_ok
    by (auto simp: prod_eq_iff)
  have n: "nat 1 = Suc 0"
    by simp
  show ?thesis
    unfolding sp update_spec_def n
    using example_keys example_keys [symmetric]
    by (simp add: example_store_def Let_def node_value_def)
qed

section \<open>Hash paths\<close>

lemma getHashPath_high:
  assumes "1 \<le> depth t" and "2147483648 \<le> idx" "idx < 4294967296"
  shows "getHashPath idx t db = (Inl RangeError, t, db)"
proof -
  have neg: "\<not> (u32 0 \<and> u32 (js_xor idx 1))"
    using js_xor_1_neg [OF assms(2,3)] by (simp add: u32_def)
  show ?thesis
    unfolding getHashPath_def
    using assms(1) readNode_err [OF neg, of t db]
    by (subst getHashPath_loop.simps) (simp add: Let_def)
qed

lemma new_depth_32:
  "new fresh_store ''t'' 32
     = (Inr \<lparr>name = ''t'', depth = 32, root = emptyHash_spec 32,
              hasher = snd (emptyHash Sha256Hasher 32)\<rparr>,
        \<lparr>cells = (\<lambda>k. NotFound)(''t'' := Found (meta_bytes (emptyHash_spec 32) 32)),
         refuses = (\<lambda>k. False),
         trace = [Get ''t'', Put ''t'' (meta_bytes (emptyHash_spec 32) 32)]\<rparr>)"
proof -
  have "\<forall>v. cells fresh_store ''t'' \<noteq> Found v" "\<not> refuses fresh_store ''t''"
    by (simp_all add: fresh_store_def)
  from new_fresh [OF _ _ this, of 32] show ?thesis
    by (simp add: fresh_store_def)
qed

lemma path_spec_length [simp]: "length (path_spec nm cs d idx n) = n"
  by (induction n arbitrary: d idx) simp_all

lemma path_spec_nth:
  "l < n \<Longrightarrow> 0 \<le> idx \<Longrightarrow>
   path_spec nm cs d idx n ! l =
     (if even (idx div 2 ^ l)
      then (node_value nm cs (d + int l) (idx div 2 ^ l), node_value nm cs (d + int l) ((idx div 2 ^ l) XOR 1))
      else (node_value nm cs (d + int l) ((idx div 2 ^ l) XOR 1), node_value nm cs (d + int l) (idx div 2 ^ l)))"
proof (induction n arbitrary: d idx l)
  case 0
  then show ?case by simp
next
  case (Suc n)
  show ?case
  proof (cases l)
    case 0
    then show ?thesis
      by (simp add: xor_one_eq)
  next
    case (Suc l')
    have "idx div 2 div 2 ^ l' = idx div 2 ^ Suc l'"
      by (simp add: zdiv_zmult2_eq)
    moreover have "d + 1 + int l' = d + int (Suc l')"
      by simp
    ultimately show ?thesis
      using Suc.IH [of l' "idx div 2" "d + 1"] Suc.prems Suc
      by (simp del: power_Suc add: add.assoc)
  qed
qed

lemma hash_path_shape:
  assumes "1 \<le> depth t" and "depth t \<le> 32" and "cache_ok (hasher t)"
    and "0 \<le> idx" and "idx < 2147483648"
  shows "\<exists>path. fst (getHashPath idx t db) = Inr path \<and> int (length path) = depth t
     \<and> (\<forall>l < length path. path ! l =
          (if even (idx div 2 ^ l)
           then (node_value (name t) (cells db) (int l) (idx div 2 ^ l),
                 node_value (name t) (cells db) (int l) ((idx div 2 ^ l) XOR 1))
           else (node_value (name t) (cells db) (int l) ((idx div 2 ^ l) XOR 1),
                 node_value (name t) (cells db) (int l) (idx div 2 ^ l))))"
proof -
  obtain t' db' where g: "getHashPath idx t db
      = (Inr (path_spec (name t) (cells db) 0 idx (nat (depth t))), t', db')"
    using getHashPath_loop_ok [of 0 t idx db "[]"] assms by (auto simp: getHashPath_def)
  show ?thesis
    using g assms(1,4) path_spec_nth [of _ "nat (depth t)" idx "name t" "cells db" 0]
    by simp
qed

section \<open>Inclusion consistency for indices below \<open>2\<^sup>3\<^sup>1\<close>\<close>

lemma node_value_other:
  assumes "keys_distinct nm D" "valid_node D l i" "valid_node D l' i'" "(l, i) \<noteq> (l', i')"
  shows "node_value nm (cs(nodeKey nm l i := x)) l' i' = node_value nm cs l' i'"
proof -
  have "nodeKey nm l' i' \<noteq> nodeKey nm l i"
    using keys_distinctD [OF assms(1,3,2)] assms(4) by auto
  then show ?thesis
    by (simp add: node_value_def)
qed

lemma node_value_same: "node_value nm (cs(nodeKey nm l i := Found v)) l i = v"
  by (simp add: node_value_def)

lemma node_value_meta:
  assumes "keys_distinct nm D" "valid_node D l i"
  shows "node_value nm (cs(nm := x)) l i = node_value nm cs l i"
  using keys_distinct_name [OF assms] by (simp add: node_value_def)

lemma valid_children:
  assumes "valid_node D l q" "1 \<le> l"
  shows "valid_node D (l - 1) (2 * q)" "valid_node D (l - 1) (2 * q + 1)"
proof -
  have "nat (D - (l - 1)) = Suc (nat (D - l))"
    using assms unfolding valid_node_def by arith
  then show "valid_node D (l - 1) (2 * q)" "valid_node D (l - 1) (2 * q + 1)"
    using assms by (simp_all add: valid_node_def)
qed

lemma rel_after_write:
  assumes kd: "keys_distinct nm D" and w: "valid_node D d j"
    and v: "valid_node D l q" "1 \<le> l"
    and ne: "(l, q) \<noteq> (d, j)" "(l, q) \<noteq> (d + 1, j div 2)"
    and r: "rel nm cs l q"
  shows "rel nm (cs(nodeKey nm d j := x)) l q"
proof -
  note ch = valid_children [OF v]
  have n: "(d, j) \<noteq> (l, q)" "(d, j) \<noteq> (l - 1, 2 * q)" "(d, j) \<noteq> (l - 1, 2 * q + 1)"
    using ne by auto
  show ?thesis
    unfolding rel_def
    by (simp only: node_value_other [OF kd w v(1) n(1)] node_value_other [OF kd w ch(1) n(2)]
        node_value_other [OF kd w ch(2) n(3)] r [unfolded rel_def])
qed

lemma climb_consistent:
  assumes kd: "keys_distinct nm D" and acc: "\<forall>k. \<not> rf k"
  shows "D = d + int n - 1 \<Longrightarrow> 1 \<le> d \<Longrightarrow> 0 \<le> idx \<Longrightarrow> idx < 2 ^ n \<Longrightarrow>
     consistent_except nm D cs {(d, idx div 2)} \<Longrightarrow> node_value nm cs (d - 1) idx = hv \<Longrightarrow>
     \<exists>h cs'. climb nm rf cs d idx hv n = (Inr h, cs')
        \<and> consistent_except nm D cs' {} \<and> node_value nm cs' D 0 = h"
proof (induction n arbitrary: cs d idx hv)
  case 0
  then have "idx = 0" "d - 1 = D"
    by simp_all
  moreover have "consistent_except nm D cs {}"
    using "0.prems"(1,5) by (auto simp: consistent_except_def valid_node_def)
  ultimately show ?case
    using "0.prems"(6) by simp
next
  case (Suc m)
  let ?j = "idx div 2"
  let ?sib = "if even idx then idx + 1 else idx - 1"
  let ?sv = "node_value nm cs (d - 1) ?sib"
  let ?hv' = "if even idx then compress hv ?sv else compress ?sv hv"
  let ?k = "nodeKey nm d ?j"
  let ?cs2 = "cs(?k := Found ?hv')"
  have half: "0 \<le> ?j" "?j < 2 ^ m"
    using Suc.prems(3,4) by auto
  have nDd: "nat (D - d) = m"
    using Suc.prems(1) by simp
  have w: "valid_node D d ?j"
    using Suc.prems(1,2) half nDd by (simp add: valid_node_def)
  have hv': "?hv' = compress (node_value nm cs (d - 1) (2 * ?j)) (node_value nm cs (d - 1) (2 * ?j + 1))"
  proof (cases "even idx")
    case True
    then have "2 * ?j = idx"
      by auto
    then show ?thesis
      using True Suc.prems(6) by simp
  next
    case False
    then have "2 * ?j + 1 = idx" "2 * ?j = idx - 1"
      by (auto elim: oddE)
    then show ?thesis
      using False Suc.prems(6) by simp
  qed
  have ch: "valid_node D (d - 1) (2 * ?j)" "valid_node D (d - 1) (2 * ?j + 1)"
    using valid_children [OF w Suc.prems(2)] .
  have relw: "rel nm ?cs2 d ?j"
    unfolding rel_def
    using node_value_other [OF kd w ch(1), of cs "Found ?hv'"]
      node_value_other [OF kd w ch(2), of cs "Found ?hv'"]
      node_value_same [of nm cs d ?j ?hv'] hv'
    by simp
  have cons2: "consistent_except nm D ?cs2 {(d + 1, ?j div 2)}"
    unfolding consistent_except_def
  proof (intro allI impI)
    fix l q
    assume a: "1 \<le> l \<and> valid_node D l q \<and> (l, q) \<notin> {(d + 1, ?j div 2)}"
    show "rel nm ?cs2 l q"
    proof (cases "(l, q) = (d, ?j)")
      case True
      then show ?thesis
        using relw by simp
    next
      case False
      then have "rel nm cs l q"
        using Suc.prems(5) a by (simp add: consistent_except_def)
      then show ?thesis
        using rel_after_write [OF kd w _ _ False, of cs "Found ?hv'"] a by simp
    qed
  qed
  have nv: "node_value nm ?cs2 (d + 1 - 1) ?j = ?hv'"
    using node_value_same [of nm cs d ?j ?hv'] by simp
  have e: "D = d + 1 + int m - 1" "1 \<le> d + 1"
    using Suc.prems(1,2) by simp_all
  have "climb nm rf cs d idx hv (Suc m) = climb nm rf ?cs2 (d + 1) ?j ?hv' m"
    using acc by (simp add: Let_def)
  then show ?case
    using Suc.IH [OF e half cons2 nv] by (simp only:)
qed

lemma consistent_meta:
  assumes kd: "keys_distinct nm D" and c: "consistent_except nm D cs {}"
  shows "consistent_except nm D (cs(nm := x)) {}"
  unfolding consistent_except_def
proof (intro allI impI)
  fix l q
  assume a: "1 \<le> l \<and> valid_node D l q \<and> (l, q) \<notin> {}"
  then have v: "valid_node D l q" "1 \<le> l"
    by simp_all
  note ch = valid_children [OF v]
  have "rel nm cs l q"
    using c a by (simp add: consistent_except_def)
  then show "rel nm (cs(nm := x)) l q"
    unfolding rel_def
    by (simp only: node_value_meta [OF kd v(1)] node_value_meta [OF kd ch(1)]
        node_value_meta [OF kd ch(2)])
qed

lemma consistent_leaf_write:
  assumes kd: "keys_distinct nm D" and c: "consistent_except nm D cs {}"
    and D: "1 \<le> D" and idx: "0 \<le> idx" "idx < 2 ^ nat D"
  shows "consistent_except nm D (cs(nodeKey nm 0 idx := x)) {(1, idx div 2)}"
  unfolding consistent_except_def
proof (intro allI impI)
  fix l q
  assume a: "1 \<le> l \<and> valid_node D l q \<and> (l, q) \<notin> {(1, idx div 2)}"
  have w: "valid_node D 0 idx"
    using D idx by (simp add: valid_node_def)
  have r: "rel nm cs l q"
    using c a by (simp add: consistent_except_def)
  have ne: "(l, q) \<noteq> (0, idx)" "(l, q) \<noteq> (0 + 1, idx div 2)"
    using a by auto
  show "rel nm (cs(nodeKey nm 0 idx := x)) l q"
    using rel_after_write [OF kd w _ _ ne r, of x] a by simp
qed

lemma updateElement_consistent:
  assumes D: "1 \<le> depth t" "depth t \<le> 32" and ok: "cache_ok (hasher t)"
    and kd: "keys_distinct (name t) (depth t)" and acc: "\<forall>k. \<not> refuses db k"
    and idx: "0 \<le> idx" "idx < 2 ^ nat (depth t)" "idx < 2147483648"
    and inv: "consistent_except (name t) (depth t) (cells db) {}"
      "node_value (name t) (cells db) (depth t) 0 = root t"
    and up: "updateElement idx v t db = (r, t', db')"
  shows "consistent_except (name t') (depth t') (cells db') {}
       \<and> node_value (name t') (cells db') (depth t') 0 = root t'
       \<and> name t' = name t \<and> depth t' = depth t \<and> cache_ok (hasher t')
       \<and> (\<forall>k. \<not> refuses db' k) \<and> r = Inr (root t')"
proof -
  let ?nm = "name t" and ?D = "depth t"
  let ?k0 = "nodeKey ?nm 0 idx"
  let ?cs0 = "(cells db)(?k0 := Found (hash v))"
  from updateElement_spec [OF D ok idx(1,3), of v db] up
  have sp: "(r, root t', cells db')
        = update_spec ?nm ?D (root t) (refuses db) (cells db) idx v"
    and rest: "name t' = ?nm" "depth t' = ?D" "cache_ok (hasher t')" "refuses db' = refuses db"
    by auto
  have c0: "consistent_except ?nm ?D ?cs0 {(1, idx div 2)}"
    using consistent_leaf_write [OF kd inv(1) D(1) idx(1,2)] .
  have n0: "node_value ?nm ?cs0 (1 - 1) idx = hash v"
    using node_value_same [of ?nm "cells db" 0 idx "hash v"] by simp
  have e: "?D = 1 + int (nat ?D) - 1" "(1::int) \<le> 1"
    using D by simp_all
  obtain h cs1 where cl: "climb ?nm (refuses db) ?cs0 1 idx (hash v) (nat ?D) = (Inr h, cs1)"
    and c1: "consistent_except ?nm ?D cs1 {}" and n1: "node_value ?nm cs1 ?D 0 = h"
    using climb_consistent [OF kd acc e idx(1,2) c0 n0] by blast
  have res: "r = Inr h" "root t' = h" "cells db' = cs1(?nm := Found (meta_bytes h ?D))"
    using sp cl acc by (simp_all add: update_spec_def)
  have vr: "valid_node ?D ?D 0"
    using D by simp
  have "consistent_except ?nm ?D (cells db') {}"
    unfolding res using consistent_meta [OF kd c1] .
  moreover have "node_value ?nm (cells db') ?D 0 = h"
    unfolding res using node_value_meta [OF kd vr] n1 by simp
  ultimately show ?thesis
    using rest res acc by simp
qed

lemma updates_consistent:
  "1 \<le> depth t \<Longrightarrow> depth t \<le> 32 \<Longrightarrow> cache_ok (hasher t) \<Longrightarrow>
   keys_distinct (name t) (depth t) \<Longrightarrow> \<forall>k. \<not> refuses db k \<Longrightarrow>
   \<forall>(i, v) \<in> set us. 0 \<le> i \<and> i < 2 ^ nat (depth t) \<and> i < 2147483648 \<Longrightarrow>
   consistent_except (name t) (depth t) (cells db) {} \<Longrightarrow>
   node_value (name t) (cells db) (depth t) 0 = root t \<Longrightarrow>
   updates us t db = (t', db') \<Longrightarrow>
   consistent_except (name t') (depth t') (cells db') {}
       \<and> node_value (name t') (cells db') (depth t') 0 = root t'
       \<and> name t' = name t \<and> depth t' = depth t \<and> cache_ok (hasher t')"
proof (induction us arbitrary: t db)
  case Nil
  then show ?case by simp
next
  case (Cons u us)
  obtain i v where u: "u = (i, v)"
    by (cases u)
  obtain r t1 db1 where up: "updateElement i v t db = (r, t1, db1)"
    by (cases "updateElement i v t db") auto
  have i: "0 \<le> i" "i < 2 ^ nat (depth t)" "i < 2147483648"
    using Cons.prems(6) u by auto
  note s = updateElement_consistent [OF Cons.prems(1,2,3,4,5) i Cons.prems(7,8) up]
  have rest: "updates us t1 db1 = (t', db')"
    using Cons.prems(9) u up by simp
  have "consistent_except (name t') (depth t') (cells db') {}
       \<and> node_value (name t') (cells db') (depth t') 0 = root t'
       \<and> name t' = name t1 \<and> depth t' = depth t1 \<and> cache_ok (hasher t')"
    using s Cons.prems(1,2,4,6) rest by (intro Cons.IH) auto
  then show ?case
    using s by auto
qed

lemma path_spec_folds:
  assumes c: "consistent_except nm D cs {}"
  shows "0 \<le> d \<Longrightarrow> D = d + int n \<Longrightarrow> 0 < n \<Longrightarrow> 0 \<le> idx \<Longrightarrow> idx < 2 ^ n \<Longrightarrow>
     folds_to idx (path_spec nm cs d idx n) (node_value nm cs D 0)"
proof (induction n arbitrary: d idx)
  case 0
  then show ?case by simp
next
  case (Suc m)
  let ?j = "idx div 2"
  let ?p0 = "if even idx then (node_value nm cs d idx, node_value nm cs d (idx + 1))
      else (node_value nm cs d (idx - 1), node_value nm cs d idx)"
  have half: "0 \<le> ?j" "?j < 2 ^ m"
    using Suc.prems(4,5) by auto
  have "nat (D - (d + 1)) = m"
    using Suc.prems(2) by simp
  then have v: "valid_node D (d + 1) ?j" "1 \<le> d + 1"
    using Suc.prems(1,2) half by (simp_all add: valid_node_def)
  then have r: "rel nm cs (d + 1) ?j"
    using c by (simp add: consistent_except_def)
  have p0: "?p0 = (node_value nm cs d (2 * ?j), node_value nm cs d (2 * ?j + 1))"
  proof (cases "even idx")
    case True
    then have "2 * ?j = idx"
      by auto
    then show ?thesis
      using True by simp
  next
    case False
    then have "2 * ?j + 1 = idx" "2 * ?j = idx - 1"
      by (auto elim: oddE)
    then show ?thesis
      using False by simp
  qed
  have up: "compress (fst ?p0) (snd ?p0) = node_value nm cs (d + 1) ?j"
    unfolding p0 using r by (simp add: rel_def)
  show ?case
  proof (cases m)
    case 0
    then have "?j = 0" "d + 1 = D"
      using half Suc.prems(2) by simp_all
    then show ?thesis
      using up 0 by (simp split: if_splits)
  next
    case (Suc m')
    have IH: "folds_to ?j (path_spec nm cs (d + 1) ?j m) (node_value nm cs D 0)"
      using Suc.prems(1,2) half Suc by (intro Suc.IH) simp_all
    obtain c1 d1 rest where p1: "path_spec nm cs (d + 1) ?j m = (c1, d1) # rest"
      and comp: "(if even ?j then c1 else d1) = node_value nm cs (d + 1) ?j"
      using Suc by (cases "even ?j") simp_all
    have "path_spec nm cs d idx (Suc m) = ?p0 # (c1, d1) # rest"
      using p1 by simp
    then show ?thesis
      using up comp IH p1 by (cases ?p0) (simp split: if_splits)
  qed
qed

lemma consistent_empty:
  assumes "\<forall>l i v. valid_node D l i \<longrightarrow> cs (nodeKey nm l i) \<noteq> Found v"
  shows "consistent_except nm D cs {}"
  unfolding consistent_except_def
proof (intro allI impI)
  fix l q
  assume a: "1 \<le> l \<and> valid_node D l q \<and> (l, q) \<notin> {}"
  then have v: "valid_node D l q" "1 \<le> l"
    by simp_all
  note ch = valid_children [OF v]
  have e: "node_value nm cs l' q' = emptyHash_spec (nat l')" if "valid_node D l' q'" for l' q'
    using assms that by (cases "cs (nodeKey nm l' q')") (auto simp: node_value_def)
  have "nat l = Suc (nat (l - 1))"
    using v(2) by simp
  then show "rel nm cs l q"
    unfolding rel_def e [OF v(1)] e [OF ch(1)] e [OF ch(2)] by simp
qed

lemma inclusion_consistency:
  assumes D: "1 \<le> D" "D \<le> 32" and kd: "keys_distinct nm D"
    and fresh: "\<forall>l i v. valid_node D l i \<longrightarrow> cells db (nodeKey nm l i) \<noteq> Found v"
      "\<forall>v. cells db nm \<noteq> Found v"
    and acc: "\<forall>k. \<not> refuses db k"
    and new: "new db nm D = (Inr t0, db0)"
    and us: "\<forall>(i, v) \<in> set us. 0 \<le> i \<and> i < 2 ^ nat D \<and> i < 2147483648"
    and i: "0 \<le> i" "i < 2 ^ nat D" "i < 2147483648"
  shows "\<exists>path. fst (getHashPath i (fst (updates us t0 db0)) (snd (updates us t0 db0))) = Inr path
           \<and> int (length path) = D
           \<and> folds_to i path (getRoot (fst (updates us t0 db0)))"
proof -
  have nr: "\<not> refuses db nm"
    using acc by simp
  note nf = new_fresh [OF D fresh(2) nr]
  have t0: "name t0 = nm" "depth t0 = D" "root t0 = emptyHash_spec (nat D)"
    "cache_ok (hasher t0)"
    using nf new emptyHash_cache_ok [OF cache_ok_Sha256Hasher, of "nat D"] by auto
  have c0: "cells db0 = (cells db)(nm := Found (meta_bytes (emptyHash_spec (nat D)) D))"
    and f0: "refuses db0 = refuses db"
    using nf new by auto
  have vr: "valid_node D D 0"
    using D by simp
  have cons_db: "consistent_except nm D (cells db) {}"
    using consistent_empty [OF fresh(1)] .
  have cons0: "consistent_except nm D (cells db0) {}"
    unfolding c0 using consistent_meta [OF kd cons_db] .
  have "node_value nm (cells db) D 0 = emptyHash_spec (nat D)"
    using fresh(1) vr by (cases "cells db (nodeKey nm D 0)") (auto simp: node_value_def)
  then have root0: "node_value nm (cells db0) D 0 = root t0"
    unfolding c0 using node_value_meta [OF kd vr] t0 by simp
  obtain t db' where u: "updates us t0 db0 = (t, db')"
    by (cases "updates us t0 db0")
  have "consistent_except (name t) (depth t) (cells db') {}
       \<and> node_value (name t) (cells db') (depth t) 0 = root t
       \<and> name t = name t0 \<and> depth t = depth t0 \<and> cache_ok (hasher t)"
    using t0 D kd acc f0 us cons0 root0 u by (intro updates_consistent) simp_all
  then have fin: "consistent_except nm D (cells db') {}" "node_value nm (cells db') D 0 = root t"
    "name t = nm" "depth t = D" "cache_ok (hasher t)"
    using t0 by auto
  obtain t' db'' where g: "getHashPath i t db'
      = (Inr (path_spec nm (cells db') 0 i (nat D)), t', db'')"
    using getHashPath_loop_ok [of 0 t i db' "[]"] fin D i by (auto simp: getHashPath_def)
  have "folds_to i (path_spec nm (cells db') 0 i (nat D)) (node_value nm (cells db') D 0)"
    using D i by (intro path_spec_folds [OF fin(1)]) simp_all
  then show ?thesis
    using g u fin D by (simp add: getRoot_def)
qed

lemma inclusion_consistency_example:
  "\<exists>path. fst (getHashPath 1 (fst (updates [(0, [1]), (1, [2, 3])] example_tree example_store))
                             (snd (updates [(0, [1]), (1, [2, 3])] example_tree example_store)))
             = Inr path
         \<and> length path = 1
         \<and> folds_to 1 path (getRoot (fst (updates [(0, [1]), (1, [2, 3])] example_tree example_store)))"
proof -
  have h: "(1::int) \<le> 1" "(1::int) \<le> 32" "keys_distinct ''t'' 1"
    "\<forall>l i v. valid_node 1 l i \<longrightarrow> cells fresh_store (nodeKey ''t'' l i) \<noteq> Found v"
    "\<forall>v. cells fresh_store ''t'' \<noteq> Found v"
    "\<forall>k. \<not> refuses fresh_store k"
    "new fresh_store ''t'' 1 = (Inr example_tree, example_store)"
    "\<forall>(i, v) \<in> set [(0::int, [1::byte]), (1, [2, 3])]. 0 \<le> i \<and> i < 2 ^ nat 1 \<and> i < 2147483648"
    "(0::int) \<le> 1" "(1::int) < 2 ^ nat 1" "(1::int) < 2147483648"
    using keys_distinct_example new_example by (simp_all add: fresh_store_def)
  show ?thesis
    using inclusion_consistency [OF h] by simp
qed

section \<open>The claims\<close>

text \<open>
  C1. Inclusion consistency is claimed for every depth \<open>D\<close> in \<open>[1, 32]\<close> and every index
  in \<open>[0, 2\<^sup>D)\<close>. At depth 32 the claim fails on the code: \<^verbatim>\<open>index ^ 1\<close> is computed on signed
  32-bit integers, so the sibling of an index from \<open>2\<^sup>3\<^sup>1\<close> on is negative, its key cannot be
  derived, and \<open>getHashPath\<close> rejects. On the tree of depth 32 freshly created under the
  name \<open>t\<close>, before any update, \<open>getHashPath(2147483648)\<close> returns no path.
\<close>

theorem hash_path_upper_half_fails:
  "fst (new fresh_store ''t'' 32)
     = Inr \<lparr>name = ''t'', depth = 32, root = emptyHash_spec 32,
             hasher = snd (emptyHash Sha256Hasher 32)\<rparr>
   \<and> (0::int) \<le> 2147483648 \<and> (2147483648::int) < 2 ^ 32
   \<and> fst (getHashPath 2147483648
            \<lparr>name = ''t'', depth = 32, root = emptyHash_spec 32,
             hasher = snd (emptyHash Sha256Hasher 32)\<rparr>
            (snd (new fresh_store ''t'' 32)))
       = Inl RangeError"
  using new_depth_32
    getHashPath_high [of "\<lparr>name = ''t'', depth = 32, root = emptyHash_spec 32,
             hasher = snd (emptyHash Sha256Hasher 32)\<rparr>" 2147483648 "snd (new fresh_store ''t'' 32)"]
  by simp

text \<open>
  C2. The claim is that a 64-byte payload is accepted and a 65-byte payload is rejected with
  the value-length error. \<open>updateElement\<close> hashes the payload before \<open>writeNode\<close> compares
  a length with \<open>LEAF_BYTES\<close>, so the comparison only ever sees 32-byte digests: on the
  tree of depth 1 freshly created under the name \<open>t\<close>, \<open>updateElement(0, Buffer.alloc(65))\<close>
  returns the new root.
\<close>

theorem oversized_payload_accepted:
  "new fresh_store ''t'' 1 = (Inr example_tree, example_store)
   \<and> length (replicate 65 0 :: bytes) = 65
   \<and> fst (updateElement 0 (replicate 65 0) example_tree example_store)
       = Inr (compress (hash (replicate 65 0)) (hash (replicate 64 0)))"
  using new_example example_update [of "replicate 65 0"] by simp

text \<open>
  C3. For every depth \<open>D\<close> in \<open>[1, 32]\<close>, opening a tree under a name that has no metadata
  in the store (and whose metadata the store accepts) creates a tree whose \<open>getRoot()\<close> is
  \<open>emptyHash(D)\<close>, the value the hasher's cache loop returns, and that value is the one
  given by \<open>emptyHash(0) = hash(64 zero bytes)\<close> and
  \<open>emptyHash(d) = compress(emptyHash(d-1), emptyHash(d-1))\<close> for \<open>d \<ge> 1\<close>.
\<close>

theorem empty_tree_root:
  assumes "1 \<le> D" and "D \<le> 32"
    and "\<forall>v. cells db nm \<noteq> Found v" and "\<not> refuses db nm"
  shows "\<exists>t db'. new db nm D = (Inr t, db') \<and> getRoot t = fst (emptyHash Sha256Hasher (nat D))
           \<and> getRoot t = emptyHash_spec (nat D)
           \<and> emptyHash_spec 0 = hash (replicate 64 0)
           \<and> (\<forall>d\<ge>1. emptyHash_spec d = compress (emptyHash_spec (d - 1)) (emptyHash_spec (d - 1)))"
proof -
  have rec: "emptyHash_spec d = compress (emptyHash_spec (d - 1)) (emptyHash_spec (d - 1))"
    if "d \<ge> 1" for d
    using that by (cases d) simp_all
  show ?thesis
    using new_fresh [OF assms] rec emptyHash_correct [OF cache_ok_Sha256Hasher, of "nat D"]
    by (simp add: getRoot_def)
qed

theorem empty_tree_root_witness:
  "(1::int) \<le> 3 \<and> (3::int) \<le> 32 \<and> (\<forall>v. cells fresh_store ''t'' \<noteq> Found v)
   \<and> \<not> refuses fresh_store ''t''
   \<and> (\<exists>t db'. new fresh_store ''t'' 3 = (Inr t, db')
          \<and> getRoot t = compress (compress (compress (hash (replicate 64 0)) (hash (replicate 64 0)))
                                       (compress (hash (replicate 64 0)) (hash (replicate 64 0))))
                             (compress (compress (hash (replicate 64 0)) (hash (replicate 64 0)))
                                       (compress (hash (replicate 64 0)) (hash (replicate 64 0)))))"
proof -
  have h: "(1::int) \<le> 3" "(3::int) \<le> 32" "\<forall>v. cells fresh_store ''t'' \<noteq> Found v"
    "\<not> refuses fresh_store ''t''"
    by (simp_all add: fresh_store_def)
  have n: "nat 3 = Suc (Suc (Suc 0))"
    by simp
  show ?thesis
    using h empty_tree_root [OF h] unfolding n by auto
qed




text \<open>
  C5, as stated, fails in three places. (1) The node is not stored under the 32-byte digest
  but under the string \<^verbatim>\<open>key.toString()\<close>: for the tree \<open>t\<close>, level 0 and index 0,
  \<open>generateKey\<close> gives a 32-byte digest and \<open>writeNode\<close> puts under a string whose UTF-8 form
  has 53 bytes. (2) Distinct trees in one store do collide: \<open>writeMetaData\<close> puts a tree's
  record under its bare name, in the key space of the nodes. Let \<open>K\<close> be the key string of
  node (0, 1) of the tree \<open>t\<close>; \<open>K\<close> is not \<open>t\<close>. In the store that holds only \<open>t\<close>,
  \<open>t.readNode(0, 1)\<close> is the empty leaf hash; once \<open>MerkleTree.new(db, K, 1)\<close> has created
  a second tree, the same call returns the 40-byte metadata record of \<open>K\<close>. (3) Not every
  index has a key: for index \<open>2\<^sup>3\<^sup>2\<close>, \<open>generateKey\<close> throws a RangeError.
\<close>

theorem node_key_counterexample:
  "generateKey example_tree 0 0 = Inr (hash (Buffer_from ''t'' @ le32 0 @ le32 0))
   \<and> length (hash (Buffer_from ''t'' @ le32 0 @ le32 0)) = 32
   \<and> trace (snd (writeNode 0 0 [1] example_tree fresh_store))
       = [Put (toString (hash (Buffer_from ''t'' @ le32 0 @ le32 0))) [1]]
   \<and> length (toString (hash (Buffer_from ''t'' @ le32 0 @ le32 0))) = 53
   \<and> nodeKey ''t'' 0 1 = toString (hash (Buffer_from ''t'' @ le32 0 @ le32 1))
   \<and> nodeKey ''t'' 0 1 \<noteq> ''t''
   \<and> fst (readNode 0 1 example_tree example_store) = Inr (hash (replicate 64 0))
   \<and> fst (new example_store (nodeKey ''t'' 0 1) 1)
       = Inr \<lparr>name = nodeKey ''t'' 0 1, depth = 1, root = emptyHash_spec 1,
               hasher = snd (emptyHash Sha256Hasher 1)\<rparr>
   \<and> fst (readNode 0 1 example_tree (snd (new example_store (nodeKey ''t'' 0 1) 1)))
       = Inr (emptyHash_spec 1 @ le32 1 @ replicate 4 0)
   \<and> length (emptyHash_spec 1 @ le32 1 @ replicate 4 0) = 40
   \<and> generateKey example_tree 0 4294967296 = Inl RangeError"
proof -
  let ?K = "nodeKey ''t'' 0 1"
  have "length (map of_char (nodeKey ''t'' 0 0) :: nat list) = 53"
    unfolding key_t_0_0 by simp
  then have l53: "length (toString (hash (Buffer_from ''t'' @ le32 0 @ le32 0))) = 53"
    by (simp add: nodeKey_def)
  have a: "generateKey example_tree 0 0 = Inr (hash (Buffer_from ''t'' @ le32 0 @ le32 0))"
    "trace (snd (writeNode 0 0 [1] example_tree fresh_store))
       = [Put (toString (hash (Buffer_from ''t'' @ le32 0 @ le32 0))) [1]]"
    by (simp_all add: generateKey_eq u32_def example_tree_def writeNode_def LEAF_BYTES_def
        db_put_def fresh_store_def)
  have K: "?K \<noteq> ''t''"
    using example_keys(5) .
  have u: "u32 0" "u32 1"
    by (simp_all add: u32_def)
  have len: "length (emptyHash_spec 1) = 32"
    by (simp add: eval_nat_numeral)
  have mb: "meta_bytes (emptyHash_spec 1) 1 = emptyHash_spec 1 @ le32 1 @ replicate 4 0"
    using meta_bytes_32 [OF len] .
  have before: "fst (readNode 0 1 example_tree example_store) = Inr (hash (replicate 64 0))"
    using readNode_ok [OF u example_tree_ok(3), of example_store] K example_tree_ok(2)
    by (auto simp: node_value_def example_store_def)
  have fr: "\<forall>v. cells example_store ?K \<noteq> Found v" "\<not> refuses example_store ?K"
    using K by (simp_all add: example_store_def)
  note nf = new_fresh [OF _ _ fr, of 1]
  have new: "fst (new example_store ?K 1)
       = Inr \<lparr>name = ?K, depth = 1, root = emptyHash_spec 1,
               hasher = snd (emptyHash Sha256Hasher 1)\<rparr>"
    and cs: "cells (snd (new example_store ?K 1)) ?K = Found (meta_bytes (emptyHash_spec 1) 1)"
    using nf by simp_all
  have after: "fst (readNode 0 1 example_tree (snd (new example_store ?K 1)))
       = Inr (emptyHash_spec 1 @ le32 1 @ replicate 4 0)"
    using readNode_ok [OF u example_tree_ok(3), of "snd (new example_store ?K 1)"] cs mb
      example_tree_ok(2)
    by (auto simp: node_value_def)
  have l40: "length (emptyHash_spec 1 @ le32 1 @ replicate 4 0) = 40"
    using len by simp
  have rng: "generateKey example_tree 0 4294967296 = Inl RangeError"
    by (simp add: generateKey_def writeUInt32LE_def)
  show ?thesis
    using a l53 K before new after l40 rng by (simp add: nodeKey_def)
qed

text \<open>
  C5, amended. For every tree name and every level and index in \<open>[0, 2\<^sup>3\<^sup>2)\<close>, \<open>generateKey\<close>
  returns exactly the 32-byte digest
  \<open>hash(name_bytes ++ level as 4 little-endian bytes ++ index as 4 little-endian bytes)\<close>;
  \<open>readNode\<close> fetches and \<open>writeNode\<close> stores the node under the string conversion of
  that digest, which is a function of (name, level, index) alone. Trees in the same store
  are not kept apart: a tree whose name is that string, of any depth from 1 to 32, writes
  its metadata record under the very same key.
\<close>

theorem node_key_derivation:
  assumes "0 \<le> lvl" and "lvl \<le> 4294967295" and "0 \<le> idx" and "idx \<le> 4294967295"
  shows "generateKey t lvl idx = Inr (hash (Buffer_from (name t) @ le32 lvl @ le32 idx))
       \<and> length (hash (Buffer_from (name t) @ le32 lvl @ le32 idx)) = 32
       \<and> trace (snd (snd (readNode lvl idx t db)))
           = trace db @ [Get (toString (hash (Buffer_from (name t) @ le32 lvl @ le32 idx)))]
       \<and> trace (snd (writeNode lvl idx (hash v) t db))
           = trace db @ [Put (toString (hash (Buffer_from (name t) @ le32 lvl @ le32 idx))) (hash v)]
       \<and> (\<forall>(t'::tree) db'. name t' = toString (hash (Buffer_from (name t) @ le32 lvl @ le32 idx))
              \<and> 1 \<le> depth t' \<and> depth t' \<le> 32
             \<longrightarrow> trace (snd (writeMetaData t' db'))
                 = trace db' @ [Put (toString (hash (Buffer_from (name t) @ le32 lvl @ le32 idx)))
                                    (meta_bytes (root t') (depth t'))])"
proof -
  have u: "u32 lvl" "u32 idx"
    using assms by (simp_all add: u32_def)
  have g: "generateKey t lvl idx = Inr (hash (Buffer_from (name t) @ le32 lvl @ le32 idx))"
    using u by (simp add: generateKey_eq)
  have r: "trace (snd (snd (readNode lvl idx t db)))
           = trace db @ [Get (toString (hash (Buffer_from (name t) @ le32 lvl @ le32 idx)))]"
    by (simp add: readNode_def g db_get_def split: fetched.splits prod.splits)
  have w: "trace (snd (writeNode lvl idx (hash v) t db))
           = trace db @ [Put (toString (hash (Buffer_from (name t) @ le32 lvl @ le32 idx))) (hash v)]"
    by (simp add: writeNode_def g db_put_def LEAF_BYTES_def)
  have m: "\<forall>(t'::tree) db'. name t' = toString (hash (Buffer_from (name t) @ le32 lvl @ le32 idx))
              \<and> 1 \<le> depth t' \<and> depth t' \<le> 32
             \<longrightarrow> trace (snd (writeMetaData t' db'))
                 = trace db' @ [Put (toString (hash (Buffer_from (name t) @ le32 lvl @ le32 idx)))
                                    (meta_bytes (root t') (depth t'))]"
  proof (intro allI impI)
    fix t' :: tree and db'
    assume a: "name t' = toString (hash (Buffer_from (name t) @ le32 lvl @ le32 idx))
              \<and> 1 \<le> depth t' \<and> depth t' \<le> 32"
    then have "u32 (depth t')"
      by (simp add: u32_def)
    from writeMetaData_eq [OF this, of db'] a
    show "trace (snd (writeMetaData t' db'))
                 = trace db' @ [Put (toString (hash (Buffer_from (name t) @ le32 lvl @ le32 idx)))
                                    (meta_bytes (root t') (depth t'))]"
      by (simp add: db_put_def)
  qed
  show ?thesis
    by (intro conjI g length_hash r w m)
qed

theorem node_key_derivation_witness:
  "(0::int) \<le> 1 \<and> (1::int) \<le> 4294967295 \<and> (0::int) \<le> 0 \<and> (0::int) \<le> 4294967295
   \<and> generateKey example_tree 1 0 = Inr (hash (Buffer_from ''t'' @ le32 1 @ le32 0))
   \<and> trace (snd (snd (readNode 1 0 example_tree fresh_store)))
       = [Get (toString (hash (Buffer_from ''t'' @ le32 1 @ le32 0)))]
   \<and> trace (snd (writeNode 1 0 (hash [7]) example_tree fresh_store))
       = [Put (toString (hash (Buffer_from ''t'' @ le32 1 @ le32 0))) (hash [7])]
   \<and> trace (snd (writeMetaData
         (example_tree\<lparr>name := toString (hash (Buffer_from ''t'' @ le32 1 @ le32 0))\<rparr>)
         fresh_store))
       = [Put (toString (hash (Buffer_from ''t'' @ le32 1 @ le32 0)))
              (meta_bytes (emptyHash_spec 1) 1)]"
proof -
  have h: "(0::int) \<le> 1" "(1::int) \<le> 4294967295" "(0::int) \<le> 0" "(0::int) \<le> 4294967295"
    by simp_all
  have rt: "root example_tree = emptyHash_spec 1"
    by (simp add: example_tree_def)
  note d = node_key_derivation [OF h, of example_tree fresh_store "[7]"]
  from d have m: "\<forall>(t'::tree) db'.
      name t' = toString (hash (Buffer_from (name example_tree) @ le32 1 @ le32 0))
        \<and> 1 \<le> depth t' \<and> depth t' \<le> 32
      \<longrightarrow> trace (snd (writeMetaData t' db'))
          = trace db' @ [Put (toString (hash (Buffer_from (name example_tree) @ le32 1 @ le32 0)))
                             (meta_bytes (root t') (depth t'))]"
    by blast
  have "trace (snd (writeMetaData
         (example_tree\<lparr>name := toString (hash (Buffer_from ''t'' @ le32 1 @ le32 0))\<rparr>)
         fresh_store))
       = [Put (toString (hash (Buffer_from ''t'' @ le32 1 @ le32 0)))
              (meta_bytes (emptyHash_spec 1) 1)]"
    using m [rule_format, of "example_tree\<lparr>name := toString (hash (Buffer_from ''t'' @ le32 1 @ le32 0))\<rparr>" fresh_store]
      example_tree_ok rt
    by (simp add: fresh_store_def)
  then show ?thesis
    using d example_tree_ok by (simp add: fresh_store_def)
qed

text \<open>
  C6. The shape of the hash path is claimed for every index in \<open>[0, 2\<^sup>D)\<close>. At depth 32 the
  claim fails on the code for the indices from \<open>2\<^sup>3\<^sup>1\<close> on: for the last leaf,
  \<open>4294967295\<close>, \<^verbatim>\<open>index ^ 1\<close> is \<open>-2\<close>, \<open>readNode(0, -2)\<close> throws while deriving the key, and
  \<open>getHashPath\<close> returns no pair at all.
\<close>

theorem hash_path_last_leaf_fails:
  "fst (new fresh_store ''t'' 32)
     = Inr \<lparr>name = ''t'', depth = 32, root = emptyHash_spec 32,
             hasher = snd (emptyHash Sha256Hasher 32)\<rparr>
   \<and> (0::int) \<le> 4294967295 \<and> (4294967295::int) < 2 ^ 32
   \<and> js_xor 4294967295 1 = - 2
   \<and> readNode 0 (- 2) \<lparr>name = ''t'', depth = 32, root = emptyHash_spec 32,
             hasher = snd (emptyHash Sha256Hasher 32)\<rparr> (snd (new fresh_store ''t'' 32))
       = (Inl RangeError, \<lparr>name = ''t'', depth = 32, root = emptyHash_spec 32,
             hasher = snd (emptyHash Sha256Hasher 32)\<rparr>, snd (new fresh_store ''t'' 32))
   \<and> fst (getHashPath 4294967295
            \<lparr>name = ''t'', depth = 32, root = emptyHash_spec 32,
             hasher = snd (emptyHash Sha256Hasher 32)\<rparr>
            (snd (new fresh_store ''t'' 32)))
       = Inl RangeError"
proof -
  have x: "js_xor 4294967295 1 = - 2"
    by (simp add: js_xor_def)
  have "\<not> (u32 0 \<and> u32 (- 2))"
    by (simp add: u32_def)
  from readNode_err [OF this] x new_depth_32
    getHashPath_high [of "\<lparr>name = ''t'', depth = 32, root = emptyHash_spec 32,
             hasher = snd (emptyHash Sha256Hasher 32)\<rparr>" 4294967295 "snd (new fresh_store ''t'' 32)"]
  show ?thesis
    by simp
qed



text \<open>
  C8. For every level and index whose key can be derived, \<open>readNode(level, index)\<close> returns
  the stored value when the fetch of that key succeeds, and returns \<open>emptyHash(level)\<close>
  when the fetch reports not found and also when it fails for any other reason; no fetch
  outcome makes it return an error.
\<close>

theorem readNode_fetch_outcomes:
  assumes "generateKey t lvl idx = Inr key" and "cache_ok (hasher t)"
  shows "(\<forall>v. fst (db_get db (toString key)) = Found v \<longrightarrow> fst (readNode lvl idx t db) = Inr v)
       \<and> (fst (db_get db (toString key)) = NotFound \<longrightarrow>
             fst (readNode lvl idx t db) = Inr (fst (emptyHash (hasher t) (nat lvl)))
           \<and> fst (readNode lvl idx t db) = Inr (emptyHash_spec (nat lvl)))
       \<and> (fst (db_get db (toString key)) = Failure \<longrightarrow>
             fst (readNode lvl idx t db) = Inr (fst (emptyHash (hasher t) (nat lvl)))
           \<and> fst (readNode lvl idx t db) = Inr (emptyHash_spec (nat lvl)))"
  using assms emptyHash_correct [OF assms(2), of "nat lvl"]
  by (auto simp: readNode_def db_get_def split: prod.splits)

theorem readNode_fetch_outcomes_witness:
  "generateKey \<lparr>name = ''t'', depth = 1, root = [], hasher = Sha256Hasher\<rparr> 0 0
     = Inr (hash (Buffer_from ''t'' @ le32 0 @ le32 0))
   \<and> cache_ok (hasher \<lparr>name = ''t'', depth = 1, root = [], hasher = Sha256Hasher\<rparr>)
   \<and> fst (readNode 0 0 \<lparr>name = ''t'', depth = 1, root = [], hasher = Sha256Hasher\<rparr> fresh_store)
       = Inr (hash (replicate 64 0))"
proof -
  let ?t = "\<lparr>name = ''t'', depth = 1, root = [], hasher = Sha256Hasher\<rparr>"
  let ?key = "hash (Buffer_from ''t'' @ le32 0 @ le32 0)"
  have h: "generateKey ?t 0 0 = Inr ?key" "cache_ok (hasher ?t)"
    by (simp_all add: generateKey_eq u32_def)
  have "fst (db_get fresh_store (toString ?key)) = NotFound"
    by (simp add: db_get_def fresh_store_def)
  with readNode_fetch_outcomes [OF h, of fresh_store]
  have "fst (readNode 0 0 ?t fresh_store) = Inr (emptyHash_spec (nat 0))"
    by blast
  then show ?thesis
    using h by simp
qed

text \<open>
  C9. After every successful \<open>updateElement\<close> on a tree of depth in \<open>[1, 32]\<close>, the store
  holds under the tree's name the 40-byte record made of the 32-byte root, the depth as 4
  little-endian bytes and 4 zero bytes, and opening the same name on that store, with any
  requested depth \<open>d\<close>, yields a tree with the same root and the same depth.
\<close>

theorem persistence_round_trip:
  assumes "1 \<le> depth t" and "depth t \<le> 32" and "cache_ok (hasher t)"
    and "fst (updateElement idx v t db) = Inr r"
  shows "getRoot (fst (snd (updateElement idx v t db))) = r
       \<and> depth (fst (snd (updateElement idx v t db))) = depth t
       \<and> name (fst (snd (updateElement idx v t db))) = name t
       \<and> cells (snd (snd (updateElement idx v t db))) (name t)
           = Found (r @ le32 (depth t) @ replicate 4 0)
       \<and> length (r @ le32 (depth t) @ replicate 4 0) = 40
       \<and> fst (new (snd (snd (updateElement idx v t db))) (name t) d)
           = Inr \<lparr>name = name t, depth = depth t, root = r, hasher = Sha256Hasher\<rparr>"
proof -
  obtain t' db' where up: "updateElement idx v t db = (Inr r, t', db')"
    using assms(4) by (cases "updateElement idx v t db") auto
  note u = updateElement_Inr [OF assms(1,2,3) up]
  have D: "u32 (depth t)"
    using assms(1,2) by (simp add: u32_def)
  have rd: "readUInt32LE (r @ le32 (depth t) @ replicate 4 0) 32 = Inr (depth t)"
    using readUInt32LE_le32 [OF D] u by simp
  have mk: "MerkleTree (name t) (depth t) (Some r)
      = Inr \<lparr>name = name t, depth = depth t, root = r, hasher = Sha256Hasher\<rparr>"
    using assms(1,2) by (simp add: MerkleTree_def MAX_DEPTH_def)
  show ?thesis
    using u rd mk up by (simp add: getRoot_def new_def db_get_def)
qed

theorem persistence_round_trip_witness:
  "1 \<le> depth example_tree \<and> depth example_tree \<le> 32 \<and> cache_ok (hasher example_tree)
   \<and> fst (updateElement 0 [7] example_tree example_store)
       = Inr (compress (hash [7]) (hash (replicate 64 0)))
   \<and> fst (new (snd (snd (updateElement 0 [7] example_tree example_store))) ''t'' 5)
       = Inr \<lparr>name = ''t'', depth = 1, root = compress (hash [7]) (hash (replicate 64 0)),
              hasher = Sha256Hasher\<rparr>"
proof -
  have h: "1 \<le> depth example_tree" "depth example_tree \<le> 32" "cache_ok (hasher example_tree)"
    "fst (updateElement 0 [7] example_tree example_store)
       = Inr (compress (hash [7]) (hash (replicate 64 0)))"
    using example_tree_ok example_update [of "[7]"] by simp_all
  show ?thesis
    using h persistence_round_trip [OF h, of 5] example_tree_ok by simp
qed

text \<open>
  C10. For every tree state, level and index, \<open>getRoot()\<close>, \<open>readNode(level, index)\<close> and
  \<open>getHashPath(index)\<close> leave the tree's root field and the contents of the store as they
  were, whatever they return: the store's accesses grow by \<open>get\<close>s only, so no node and
  no metadata is written.
\<close>

theorem read_operations_frame:
  "getRoot t = root t
   \<and> root (fst (snd (readNode lvl idx t db))) = root t
   \<and> cells (snd (snd (readNode lvl idx t db))) = cells db
   \<and> refuses (snd (snd (readNode lvl idx t db))) = refuses db
   \<and> take (length (trace db)) (trace (snd (snd (readNode lvl idx t db)))) = trace db
   \<and> list_all is_Get (drop (length (trace db)) (trace (snd (snd (readNode lvl idx t db)))))
   \<and> root (fst (snd (getHashPath idx t db))) = root t
   \<and> cells (snd (snd (getHashPath idx t db))) = cells db
   \<and> refuses (snd (snd (getHashPath idx t db))) = refuses db
   \<and> take (length (trace db)) (trace (snd (snd (getHashPath idx t db)))) = trace db
   \<and> list_all is_Get (drop (length (trace db)) (trace (snd (snd (getHashPath idx t db)))))"
  using readNode_frame [of t lvl idx db] getHashPath_loop_frame [of t db 0 idx "[]"]
  by (simp add: getRoot_def getHashPath_def same_tree_def reads_only_def)

end
